theory Spec2Isabelle
  imports Main "HOL-Library.Sublist"
begin

section \<open>Strings of the extension\<close>

text \<open>
  The extension (\<^verbatim>\<open>src/src/extension.ts\<close>) works on JavaScript strings. A string is
  modelled as a \<^typ>\<open>string\<close>, one \<^typ>\<open>char\<close> for each code unit below \<^verbatim>\<open>0x100\<close>.
  In that range the white space of \<^verbatim>\<open>String.prototype.trim\<close> and of the regular
  expression class \<^verbatim>\<open>\s\<close> is TAB, LF, VT, FF, CR, SPACE and NBSP, and the line
  terminators that \<^verbatim>\<open>.\<close> refuses are LF and CR.
\<close>

abbreviation LF :: char where
  "LF \<equiv> CHR 0x0A"

abbreviation CR :: char where
  "CR \<equiv> CHR 0x0D"

definition isWhiteSpace :: "char \<Rightarrow> bool" where
  "isWhiteSpace c =
     (c \<in> set [CHR 0x09, CHR 0x0A, CHR 0x0B, CHR 0x0C, CHR 0x0D, CHR 0x20, CHR 0xA0])"

definition isLineTerminator :: "char \<Rightarrow> bool" where
  "isLineTerminator c = (c = LF \<or> c = CR)"

text \<open>The class \<^verbatim>\<open>\w\<close>: ASCII letters, digits and the underscore.\<close>

definition isWordChar :: "char \<Rightarrow> bool" where
  "isWordChar c =
     (c \<in> set ''ABCDEFGHIJKLMNOPQRSTUVWXYZabcdefghijklmnopqrstuvwxyz0123456789_'')"

text \<open>
  Under the flag \<^verbatim>\<open>i\<close> a pattern character and an input character match when their
  canonical (upper case) forms agree. The patterns matched that way are ASCII labels,
  and no character outside ASCII canonicalises to an ASCII one, so folding the ASCII
  letters decides the match.
\<close>

definition toUpperCase :: "char \<Rightarrow> char" where
  "toUpperCase c =
     (case map_of (zip ''abcdefghijklmnopqrstuvwxyz'' ''ABCDEFGHIJKLMNOPQRSTUVWXYZ'') c of
        Some u \<Rightarrow> u
      | None \<Rightarrow> c)"

text \<open>\<^verbatim>\<open>s.trim()\<close>: white space is removed at both ends.\<close>

definition trim :: "string \<Rightarrow> string" where
  "trim s = rev (dropWhile isWhiteSpace (rev (dropWhile isWhiteSpace s)))"

text \<open>
  \<^verbatim>\<open>fullText.indexOf(before)\<close>: the least index at which \<open>before\<close> starts in
  \<open>fullText\<close>; \<open>None\<close> stands for the result \<^verbatim>\<open>-1\<close>.
\<close>

fun indexOf :: "string \<Rightarrow> string \<Rightarrow> nat option" where
  "indexOf [] b = (if b = [] then Some 0 else None)"
| "indexOf (c # cs) b =
     (if prefix b (c # cs) then Some 0 else map_option Suc (indexOf cs b))"

text \<open>
  \<^verbatim>\<open>s.split(/\r?\n/)\<close>: a separator is LF, or CR directly followed by LF; a CR
  that no LF follows stays in its line. The result is never empty.
\<close>

fun splitLines :: "string \<Rightarrow> string list" where
  "splitLines [] = [[]]"
| "splitLines (c # cs) =
     (if c = LF then [] # splitLines cs
      else if c = CR \<and> take 1 cs = [LF] then [] # splitLines (drop 1 cs)
      else (case splitLines cs of
              l # ls \<Rightarrow> (c # l) # ls
            | [] \<Rightarrow> [[c]]))"

text \<open>
  The editor addresses a document by lines: \<^verbatim>\<open>new vscode.Position(i, 0)\<close> is the start
  of line \<open>i\<close> and \<^verbatim>\<open>doc.lineAt(i).range.end\<close> its end, before the line's terminator.
  A document of the editor holds one kind of line terminator, LF or CR LF, so its
  lines are the ones \<^verbatim>\<open>split(/\r?\n/)\<close> gives.
  \<open>lineSpansFrom start pos s\<close> gives the two offsets of every line of a document
  whose current line started at \<open>start\<close> and whose text from offset \<open>pos\<close> on is
  \<open>s\<close>; the lines are those of \<open>splitLines\<close> (lemma \<open>lineSpans_slices\<close>).
\<close>

fun lineSpansFrom :: "nat \<Rightarrow> nat \<Rightarrow> string \<Rightarrow> (nat \<times> nat) list" where
  "lineSpansFrom start pos [] = [(start, pos)]"
| "lineSpansFrom start pos (c # cs) =
     (if c = LF then (start, pos) # lineSpansFrom (pos + 1) (pos + 1) cs
      else if c = CR \<and> take 1 cs = [LF]
        then (start, pos) # lineSpansFrom (pos + 2) (pos + 2) (drop 1 cs)
      else lineSpansFrom start (pos + 1) cs)"

definition lineSpans :: "string \<Rightarrow> (nat \<times> nat) list" where
  "lineSpans fullText = lineSpansFrom 0 0 fullText"

definition lineStart :: "string \<Rightarrow> nat \<Rightarrow> nat" where
  "lineStart fullText i = fst (lineSpans fullText ! i)"

definition lineEnd :: "string \<Rightarrow> nat \<Rightarrow> nat" where
  "lineEnd fullText i = snd (lineSpans fullText ! i)"

text \<open>
  \<^verbatim>\<open>doc.positionAt(offset)\<close>: the line that holds the offset and the offset within that
  line, at most the line's length (\<^verbatim>\<open>Math.min(remainder, lineLength)\<close>). A line holds
  the offsets up to the start of the next line, so an offset between the CR and the LF of
  a terminator gives the end of the line before the CR. \<open>positionIn\<close> walks the lines
  from the line numbered \<open>line\<close>. The lines are those of \<open>lineSpans\<close>, which are
  the document's own lines in a text whose every CR is followed by LF.
\<close>

fun positionIn :: "(nat \<times> nat) list \<Rightarrow> nat \<Rightarrow> nat \<Rightarrow> nat \<times> nat" where
  "positionIn [] line offset = (line, 0)"
| "positionIn [sp] line offset = (line, min (offset - fst sp) (snd sp - fst sp))"
| "positionIn (sp # next # spans) line offset =
     (if offset < fst next then (line, min (offset - fst sp) (snd sp - fst sp))
      else positionIn (next # spans) (Suc line) offset)"

definition positionAt :: "string \<Rightarrow> nat \<Rightarrow> nat \<times> nat" where
  "positionAt fullText offset = positionIn (lineSpans fullText) 0 offset"

text \<open>
  The offset of a position (line and character), which is where an edit at that position
  takes place in the text.
\<close>

definition offsetAt :: "string \<Rightarrow> nat \<times> nat \<Rightarrow> nat" where
  "offsetAt fullText position = lineStart fullText (fst position) + snd position"

text \<open>
  The offset that \<open>positionIn\<close> stands for, computed in one pass (lemma
  \<open>offsetAt_positionAt\<close>), and the offsets that lie between the CR and the LF of a
  CR LF pair; both serve the statements about \<open>positionAt\<close>.
\<close>

fun clampIn :: "(nat \<times> nat) list \<Rightarrow> nat \<Rightarrow> nat" where
  "clampIn [] offset = 0"
| "clampIn [sp] offset = fst sp + min (offset - fst sp) (snd sp - fst sp)"
| "clampIn (sp # next # spans) offset =
     (if offset < fst next then fst sp + min (offset - fst sp) (snd sp - fst sp)
      else clampIn (next # spans) offset)"

definition splitsTerminator :: "string \<Rightarrow> nat \<Rightarrow> bool" where
  "splitsTerminator s offset =
     (0 < offset \<and> offset < length s \<and> s ! (offset - 1) = CR \<and> s ! offset = LF)"

text \<open>\<^verbatim>\<open>e.replace(new vscode.Range(from, to), content)\<close> on a document's text.\<close>

definition replaceRange :: "string \<Rightarrow> nat \<times> nat \<Rightarrow> string \<Rightarrow> string" where
  "replaceRange fullText r newText =
     take (fst r) fullText @ newText @ drop (snd r) fullText"

section \<open>Locating the text a MODIFY replaces\<close>

text \<open>What \<^verbatim>\<open>executeAction\<close> throws, and what the host's calls reject with.\<close>

datatype error =
    NoWorkspace
  | EmptyPatchBlock
  | PatchNotFound
  | FileReadError
  | FileNotFound
  | TypeError
  | UriError

text \<open>
  The two loops that skip the blank lines at both ends of the search block:
  \<^verbatim>\<open>while (startSearch <= endSearch && searchLines[startSearch].trim() === '') startSearch++\<close>
  and
  \<^verbatim>\<open>while (endSearch >= startSearch && searchLines[endSearch].trim() === '') endSearch--\<close>.
  \<^verbatim>\<open>endSearch\<close> may fall to \<open>-1\<close>, so it is an integer.
\<close>

function skipLeadingBlank :: "string list \<Rightarrow> nat \<Rightarrow> int \<Rightarrow> nat" where
  "skipLeadingBlank searchLines startSearch endSearch =
     (if int startSearch \<le> endSearch \<and> trim (searchLines ! startSearch) = []
      then skipLeadingBlank searchLines (startSearch + 1) endSearch
      else startSearch)"
  by pat_completeness auto
termination
  by (relation "measure (\<lambda>(searchLines, startSearch, endSearch).
        nat (endSearch + 1 - int startSearch))") auto

function skipTrailingBlank :: "string list \<Rightarrow> nat \<Rightarrow> int \<Rightarrow> int" where
  "skipTrailingBlank searchLines startSearch endSearch =
     (if endSearch \<ge> int startSearch \<and> trim (searchLines ! nat endSearch) = []
      then skipTrailingBlank searchLines startSearch (endSearch - 1)
      else endSearch)"
  by pat_completeness auto
termination
  by (relation "measure (\<lambda>(searchLines, startSearch, endSearch).
        nat (endSearch + 1 - int startSearch))") auto

text \<open>\<^verbatim>\<open>xs.slice(start, end)\<close> for indices that are not negative.\<close>

definition slice :: "'a list \<Rightarrow> nat \<Rightarrow> int \<Rightarrow> 'a list" where
  "slice xs start end = take (nat end - start) (drop start xs)"

text \<open>
  \<^verbatim>\<open>effectiveSearchLines\<close>: the search block without the blank lines at its ends
  (lemma \<open>effectiveSearchLines_dropWhile\<close>).
\<close>

definition effectiveSearchLines :: "string list \<Rightarrow> string list" where
  "effectiveSearchLines searchLines =
     (let startSearch = skipLeadingBlank searchLines 0 (int (length searchLines) - 1);
          endSearch = skipTrailingBlank searchLines startSearch (int (length searchLines) - 1)
      in slice searchLines startSearch (endSearch + 1))"

definition isBlank :: "string \<Rightarrow> bool" where
  "isBlank l = (trim l = [])"

text \<open>The inner loop over \<open>j\<close>: every line of the block agrees once both are trimmed.\<close>

definition matchesAt :: "string list \<Rightarrow> string list \<Rightarrow> nat \<Rightarrow> bool" where
  "matchesAt docLines effective i =
     list_all (\<lambda>j. trim (docLines ! (i + j)) = trim (effective ! j)) [0..<length effective]"

text \<open>
  The outer loop \<^verbatim>\<open>for (let i = 0; i <= docLines.length - effective.length; i++)\<close>
  stops at the first \<open>i\<close> that matches; it does not run when the block has more
  lines than the document. \<open>None\<close> stands for \<^verbatim>\<open>foundLineIndex === -1\<close>.
\<close>

definition foundLineIndex :: "string list \<Rightarrow> string list \<Rightarrow> nat option" where
  "foundLineIndex docLines effective =
     (if length effective \<le> length docLines
      then find (matchesAt docLines effective)
             [0..<Suc (length docLines - length effective)]
      else None)"

text \<open>
  The MODIFY case of \<^verbatim>\<open>executeAction\<close> up to its edit: the range to replace, as two
  offsets into \<open>fullText\<close>, or the error thrown. The exact stage builds its range
  from \<^verbatim>\<open>doc.positionAt(offset)\<close> and \<^verbatim>\<open>doc.positionAt(offset + before.length)\<close>, and
  the edit takes place at the offsets of these two positions; the line stage builds it
  from the start of the first line and the end of the last.
\<close>

definition locate :: "string \<Rightarrow> string \<Rightarrow> error + (nat \<times> nat)" where
  "locate fullText before =
     (case indexOf fullText before of
        Some offset \<Rightarrow>
          Inr (offsetAt fullText (positionAt fullText offset),
               offsetAt fullText (positionAt fullText (offset + length before)))
      | None \<Rightarrow>
          (let docLines = splitLines fullText;
               searchLines = splitLines before;
               effective = effectiveSearchLines searchLines
           in if effective = [] then Inl EmptyPatchBlock
              else (case foundLineIndex docLines effective of
                      Some i \<Rightarrow>
                        Inr (lineStart fullText i,
                             lineEnd fullText (i + length effective - 1))
                    | None \<Rightarrow> Inl PatchNotFound)))"

section \<open>Actions, the provider and its host\<close>

text \<open>
  \<^verbatim>\<open>interface AgentAction\<close>. The field \<^verbatim>\<open>type\<close> is declared as one of five words,
  but the parser stores the captured word under a cast (\<^verbatim>\<open>type as any\<close>), so at run
  time it holds any string; optional fields are \<open>None\<close> when \<^verbatim>\<open>undefined\<close>.
\<close>

record action =
  id' :: string
  type :: string
  path :: "string option"
  content :: "string option"
  before :: "string option"
  command :: "string option"
  url :: "string option"

text \<open>
  The chat messages the modelled methods add (\<^verbatim>\<open>interface ChatMessage\<close>): the pasted
  reply (role \<^verbatim>\<open>ai\<close>), the notice of skipped terminal commands with its count (role
  \<^verbatim>\<open>system\<close>), the notice that no tool call was recognised (role \<^verbatim>\<open>error\<close>) and the
  card of a pending action (role \<^verbatim>\<open>action\<close>).
\<close>

datatype chatMessage =
    AiText string
  | SkippedShell nat
  | NoToolCall
  | ActionCard action

datatype webviewMessage =
    AddMessage chatMessage
  | ActionComplete string
  | ActionError string error
  | ToggleApproveAll bool

text \<open>
  Two functions of the host are parameters of the model: \<^verbatim>\<open>path.resolve\<close>, and whether
  \<^verbatim>\<open>vscode.Uri.parse\<close> accepts a string (it throws otherwise).
\<close>

record host =
  resolve :: "string \<Rightarrow> string \<Rightarrow> string"
  parsesAsUri :: "string \<Rightarrow> bool"

text \<open>
  What the actions act on: the path of the first workspace folder, the text of every
  file (or open document) by resolved path, what was sent to the terminal, the URLs
  opened, and the errors shown by \<^verbatim>\<open>showErrorMessage\<close>.
\<close>

record world =
  workspaceRoot :: "string option"
  files :: "string \<rightharpoonup> string"
  terminal :: "string option list"
  openedUrls :: "string list"
  errorMessages :: "error list"

text \<open>
  \<^verbatim>\<open>class ManualAIChatViewProvider\<close>: the queue, the history, whether a view is attached
  (\<^verbatim>\<open>_view\<close>) and the messages posted to it.
\<close>

record provider =
  pendingActions :: "action list"
  chatHistory :: "chatMessage list"
  view :: bool
  posted :: "webviewMessage list"
  world :: world

text \<open>\<^verbatim>\<open>this._view?.webview.postMessage(m)\<close>\<close>

definition postMessage :: "webviewMessage \<Rightarrow> provider \<Rightarrow> provider" where
  "postMessage m s = (if view s then s\<lparr>posted := posted s @ [m]\<rparr> else s)"

definition addToHistory :: "chatMessage \<Rightarrow> provider \<Rightarrow> provider" where
  "addToHistory m s = postMessage (AddMessage m) (s\<lparr>chatHistory := chatHistory s @ [m]\<rparr>)"

section \<open>Executing an action\<close>

text \<open>
  The MODIFY case. \<^verbatim>\<open>path.resolve\<close> throws on an undefined path, opening a document
  that cannot be read rejects, and a \<^verbatim>\<open>before\<close> that was not captured ends in a
  \<^verbatim>\<open>TypeError\<close> on either branch (\<^verbatim>\<open>action.before!.length\<close>, \<^verbatim>\<open>action.before!.split\<close>).
  An edit whose text is undefined leaves nothing in place of the range; the edit is
  taken to apply (its result is not looked at by the code). The files of the model
  hold the text of the open documents as well.
\<close>

definition modify :: "host \<Rightarrow> string \<Rightarrow> action \<Rightarrow> world \<Rightarrow> error + world" where
  "modify h root a w =
     (case path a of
        None \<Rightarrow> Inl TypeError
      | Some p \<Rightarrow>
          (case files w (resolve h root p) of
             None \<Rightarrow> Inl FileReadError
           | Some fullText \<Rightarrow>
               (case before a of
                  None \<Rightarrow> Inl TypeError
                | Some b \<Rightarrow>
                    (case locate fullText b of
                       Inl e \<Rightarrow> Inl e
                     | Inr r \<Rightarrow>
                         Inr (w\<lparr>files := (files w)(resolve h root p \<mapsto>
                                replaceRange fullText r
                                  (case content a of None \<Rightarrow> [] | Some c \<Rightarrow> c))\<rparr>)))))"

text \<open>
  The body of the \<^verbatim>\<open>try\<close> block up to the end of the \<^verbatim>\<open>switch\<close>: the host after the
  action, or the error thrown. An empty root is falsy and counts as no workspace;
  \<^verbatim>\<open>Buffer.from(action.content || '')\<close> writes the empty file for an absent content;
  deleting a missing file rejects; a \<^verbatim>\<open>type\<close> that no \<^verbatim>\<open>case\<close> names does nothing.
  A FETCH hands its URL to the host (\<^verbatim>\<open>vscode.env.openExternal\<close>) and does not await
  the result: \<open>openedUrls\<close> holds the requests made, whether or not the host has
  opened them yet, and only \<^verbatim>\<open>vscode.Uri.parse\<close> can throw.
\<close>

definition perform :: "host \<Rightarrow> action \<Rightarrow> world \<Rightarrow> error + world" where
  "perform h a w =
     (case workspaceRoot w of
        None \<Rightarrow> Inl NoWorkspace
      | Some root \<Rightarrow>
          if root = [] then Inl NoWorkspace
          else if type a = ''MODIFY'' then modify h root a w
          else if type a = ''CREATE'' then
            (case path a of
               None \<Rightarrow> Inl TypeError
             | Some p \<Rightarrow>
                 Inr (w\<lparr>files := (files w)(resolve h root p \<mapsto>
                        (case content a of None \<Rightarrow> [] | Some c \<Rightarrow> c))\<rparr>))
          else if type a = ''DELETE'' then
            (case path a of
               None \<Rightarrow> Inl TypeError
             | Some p \<Rightarrow>
                 (case files w (resolve h root p) of
                    None \<Rightarrow> Inl FileNotFound
                  | Some _ \<Rightarrow> Inr (w\<lparr>files := (files w)(resolve h root p := None)\<rparr>)))
          else if type a = ''SHELL'' then Inr (w\<lparr>terminal := terminal w @ [command a]\<rparr>)
          else if type a = ''FETCH'' then
            (case url a of
               None \<Rightarrow> Inr w
             | Some u \<Rightarrow>
                 if u = [] then Inr w
                 else if parsesAsUri h u then Inr (w\<lparr>openedUrls := openedUrls w @ [u]\<rparr>)
                 else Inl UriError)
          else Inr w)"

text \<open>\<^verbatim>\<open>xs.findIndex(P)\<close>, with \<open>None\<close> for \<^verbatim>\<open>-1\<close>, and \<^verbatim>\<open>xs.splice(index, 1)\<close>.\<close>

fun findIndex :: "('a \<Rightarrow> bool) \<Rightarrow> 'a list \<Rightarrow> nat option" where
  "findIndex P [] = None"
| "findIndex P (x # xs) = (if P x then Some 0 else map_option Suc (findIndex P xs))"

definition splice1 :: "nat \<Rightarrow> 'a list \<Rightarrow> 'a list" where
  "splice1 index xs = take index xs @ drop (Suc index) xs"

text \<open>
  \<^verbatim>\<open>executeAction(actionId)\<close>. After the \<^verbatim>\<open>switch\<close> the action is spliced out of the
  queue and its completion posted; the \<^verbatim>\<open>catch\<close> block posts the error and shows it,
  and does nothing else.
\<close>

definition executeAction :: "host \<Rightarrow> string \<Rightarrow> provider \<Rightarrow> provider" where
  "executeAction h actionId s =
     (case findIndex (\<lambda>a. id' a = actionId) (pendingActions s) of
        None \<Rightarrow> s
      | Some index \<Rightarrow>
          (case perform h (pendingActions s ! index) (world s) of
             Inr w \<Rightarrow>
               (let s1 = postMessage (ActionComplete actionId)
                           (s\<lparr>world := w, pendingActions := splice1 index (pendingActions s)\<rparr>)
                in if filter (\<lambda>a. type a \<noteq> ''SHELL'') (pendingActions s1) = []
                   then postMessage (ToggleApproveAll False) s1
                   else s1)
           | Inl e \<Rightarrow>
               (postMessage (ActionError actionId e) s)
                 \<lparr>world := (world s)\<lparr>errorMessages := errorMessages (world s) @ [e]\<rparr>\<rparr>))"

text \<open>\<^verbatim>\<open>handleApproveAll()\<close>\<close>

definition handleApproveAll :: "host \<Rightarrow> provider \<Rightarrow> provider" where
  "handleApproveAll h s =
     (let safeActions = filter (\<lambda>a. type a \<noteq> ''SHELL'') (pendingActions s);
          skippedCount = length (pendingActions s) - length safeActions;
          actionIds = map id' safeActions;
          s1 = foldl (\<lambda>s i. executeAction h i s) s actionIds;
          s2 = (if skippedCount > 0 then addToHistory (SkippedShell skippedCount) s1 else s1);
          remaining = filter (\<lambda>a. id' a \<notin> set actionIds) (pendingActions s2)
      in if remaining = [] \<or> list_all (\<lambda>a. type a = ''SHELL'') remaining
         then postMessage (ToggleApproveAll False) s2
         else s2)"

text \<open>
  For comparison with \<open>handleApproveAll\<close>: the host after the actions of a list were
  executed one after the other, each on the host its predecessor left; a failed action
  changes nothing but the errors shown.
\<close>

definition settle :: "host \<Rightarrow> world \<Rightarrow> action \<Rightarrow> world" where
  "settle h w a =
     (case perform h a w of
        Inr w' \<Rightarrow> w'
      | Inl e \<Rightarrow> w\<lparr>errorMessages := errorMessages w @ [e]\<rparr>)"

definition performInOrder :: "host \<Rightarrow> action list \<Rightarrow> world \<Rightarrow> world" where
  "performInOrder h as w = foldl (settle h) w as"

section \<open>Parsing the reply\<close>

text \<open>
  The blocks are found by
  \<^verbatim>\<open>/{{\s*TOOL_CALL:\s*(\w+)\s*}}([\s\S]*?)(?={{\s*TOOL_CALL:|$)/g\<close>.
  White space, word characters and the braces are disjoint classes, so the greedy
  quantifiers of the marker never give anything back: the marker matches at a position
  exactly when the text there reads \<^verbatim>\<open>{{\<close>, white space, \<^verbatim>\<open>TOOL_CALL:\<close>, white space,
  a non-empty word, white space, \<^verbatim>\<open>}}\<close>.
\<close>

definition stripPrefix :: "string \<Rightarrow> string \<Rightarrow> string option" where
  "stripPrefix p s = (if prefix p s then Some (drop (length p) s) else None)"

text \<open>What follows \<^verbatim>\<open>{{\s*TOOL_CALL:\<close> when the text starts with it.\<close>

definition afterMarkerStart :: "string \<Rightarrow> string option" where
  "afterMarkerStart s =
     (case stripPrefix ''{{'' s of
        None \<Rightarrow> None
      | Some s1 \<Rightarrow> stripPrefix ''TOOL_CALL:'' (dropWhile isWhiteSpace s1))"

text \<open>The word captured by a marker at the start of the text, and what follows the marker.\<close>

definition matchMarker :: "string \<Rightarrow> (string \<times> string) option" where
  "matchMarker s =
     (case afterMarkerStart s of
        None \<Rightarrow> None
      | Some s2 \<Rightarrow>
          (let s3 = dropWhile isWhiteSpace s2;
               kind = takeWhile isWordChar s3;
               s4 = dropWhile isWhiteSpace (dropWhile isWordChar s3)
           in if kind = [] then None
              else map_option (Pair kind) (stripPrefix ''}}'' s4)))"

text \<open>
  The lazy body \<^verbatim>\<open>([\s\S]*?)\<close> ends at the first position where the lookahead holds:
  where \<^verbatim>\<open>{{\s*TOOL_CALL:\<close> starts, or at the end of the text. The result is the body
  and the rest of the text, from which the next search starts.
\<close>

fun takeBody :: "string \<Rightarrow> string \<times> string" where
  "takeBody [] = ([], [])"
| "takeBody (c # cs) =
     (if afterMarkerStart (c # cs) \<noteq> None then ([], c # cs)
      else (case takeBody cs of (body, rest) \<Rightarrow> (c # body, rest)))"

lemma stripPrefix_length: "stripPrefix p s = Some r \<Longrightarrow> length r \<le> length s"
  by (auto simp: stripPrefix_def split: if_splits)

lemma stripPrefix_length_less:
  "stripPrefix p s = Some r \<Longrightarrow> p \<noteq> [] \<Longrightarrow> length r < length s"
  by (auto simp: stripPrefix_def prefix_def split: if_splits)

lemma afterMarkerStart_length: "afterMarkerStart s = Some r \<Longrightarrow> length r < length s"
proof -
  assume a: "afterMarkerStart s = Some r"
  then obtain s1 where s1: "stripPrefix ''{{'' s = Some s1"
    and r: "stripPrefix ''TOOL_CALL:'' (dropWhile isWhiteSpace s1) = Some r"
    by (auto simp: afterMarkerStart_def split: option.splits)
  have "length s1 < length s"
    using stripPrefix_length_less [OF s1] by simp
  moreover have "length r \<le> length (dropWhile isWhiteSpace s1)"
    using stripPrefix_length [OF r] .
  moreover have "length (dropWhile isWhiteSpace s1) \<le> length s1"
    by (rule length_dropWhile_le)
  ultimately show ?thesis by linarith
qed

lemma matchMarker_length: "matchMarker s = Some (kind, r) \<Longrightarrow> length r < length s"
proof -
  assume a: "matchMarker s = Some (kind, r)"
  then obtain s2 where s2: "afterMarkerStart s = Some s2"
    and r: "stripPrefix ''}}''
              (dropWhile isWhiteSpace (dropWhile isWordChar (dropWhile isWhiteSpace s2))) = Some r"
    by (auto simp: matchMarker_def Let_def split: option.splits if_splits)
  have "length r \<le> length (dropWhile isWhiteSpace (dropWhile isWordChar (dropWhile isWhiteSpace s2)))"
    using stripPrefix_length [OF r] .
  also have "\<dots> \<le> length (dropWhile isWordChar (dropWhile isWhiteSpace s2))"
    by (rule length_dropWhile_le)
  also have "\<dots> \<le> length (dropWhile isWhiteSpace s2)"
    by (rule length_dropWhile_le)
  also have "\<dots> \<le> length s2"
    by (rule length_dropWhile_le)
  finally show ?thesis
    using afterMarkerStart_length [OF s2] by linarith
qed

lemma takeBody_length: "length (snd (takeBody s)) \<le> length s"
  by (induction s) (auto split: prod.splits)

text \<open>
  The loop \<^verbatim>\<open>while ((match = actionRegex.exec(aiResponse)) !== null)\<close>: each search
  starts where the last match ended and finds the leftmost marker; the result lists
  \<^verbatim>\<open>match[1]\<close> and \<^verbatim>\<open>match[2]\<close> of every match.
\<close>

function findBlocks :: "string \<Rightarrow> (string \<times> string) list" where
  "findBlocks [] = []"
| "findBlocks (c # cs) =
     (case matchMarker (c # cs) of
        None \<Rightarrow> findBlocks cs
      | Some (kind, afterMarker) \<Rightarrow>
          (case takeBody afterMarker of
             (body, rest) \<Rightarrow> (kind, body) # findBlocks rest))"
  by pat_completeness auto
termination
  apply (relation "measure length")
    apply simp
   apply simp
  apply clarsimp
  apply (drule matchMarker_length)
  subgoal for c cs a b x y
    using takeBody_length [of b]
    by (metis le_less_trans less_Suc_eq list.size(4) snd_conv Suc_eq_plus1 length_Cons)
  done

text \<open>
  \<^verbatim>\<open>getField\<close> matches \<^verbatim>\<open>(?:\*\*)?FIELD:(?:\*\*)?\s*(.*)\<close> under the flag \<^verbatim>\<open>i\<close>. The
  leftmost match holds the first occurrence of the label, in any letter case; after the
  label an emphasis mark and all white space (line breaks included) are skipped, and the
  capture runs to the end of that line. Nothing of this can fail once the label is
  found, so there is no backtracking. The capture is trimmed.
\<close>

definition matchesLabel :: "string \<Rightarrow> string \<Rightarrow> bool" where
  "matchesLabel label s =
     (length label \<le> length s
      \<and> map toUpperCase (take (length label) s) = map toUpperCase label)"

fun afterLabel :: "string \<Rightarrow> string \<Rightarrow> string option" where
  "afterLabel label [] = None"
| "afterLabel label (c # cs) =
     (if matchesLabel label (c # cs) then Some (drop (length label) (c # cs))
      else afterLabel label cs)"

definition skipEmphasis :: "string \<Rightarrow> string" where
  "skipEmphasis s = (if prefix ''**'' s then drop 2 s else s)"

definition getField :: "string \<Rightarrow> string \<Rightarrow> string option" where
  "getField body field =
     map_option
       (\<lambda>rest. trim (takeWhile (\<lambda>c. \<not> isLineTerminator c)
                        (dropWhile isWhiteSpace (skipEmphasis rest))))
       (afterLabel (field @ '':'') body)"

text \<open>
  \<^verbatim>\<open>getCodeBlock\<close> matches the label, then lazily anything up to a fence of three
  backquotes, \<^verbatim>\<open>[\w]*\n?\<close>, the lazy capture, and \<^verbatim>\<open>\n?\<close> before the closing fence.
  The opening fence is the first fence after the label (the skipped emphasis mark and
  white space hold no backquote); the language tag and one line feed are skipped; the
  capture ends at the first position where a fence, or a line feed and a fence, start.
  If the first label or the first fence leads to no match, no later one does, since
  the text after a later one is text after the first as well.
\<close>

abbreviation fence :: string where
  "fence \<equiv> [CHR 0x60, CHR 0x60, CHR 0x60]"

fun afterFence :: "string \<Rightarrow> string option" where
  "afterFence [] = None"
| "afterFence (c # cs) =
     (if prefix fence (c # cs) then Some (drop 3 (c # cs)) else afterFence cs)"

fun untilClosingFence :: "string \<Rightarrow> string option" where
  "untilClosingFence [] = None"
| "untilClosingFence (c # cs) =
     (if prefix (LF # fence) (c # cs) \<or> prefix fence (c # cs) then Some []
      else map_option ((#) c) (untilClosingFence cs))"

definition getCodeBlock :: "string \<Rightarrow> string \<Rightarrow> string option" where
  "getCodeBlock body field =
     (case afterLabel (field @ '':'') body of
        None \<Rightarrow> None
      | Some rest \<Rightarrow>
          (case afterFence rest of
             None \<Rightarrow> None
           | Some inner \<Rightarrow>
               (let tagged = dropWhile isWordChar inner
                in untilClosingFence (if prefix [LF] tagged then drop 1 tagged else tagged))))"

text \<open>
  The action built from one match: \<open>i\<close> is the identifier drawn for it, \<open>blk\<close> the
  pair of \<^verbatim>\<open>match[1]\<close> and \<^verbatim>\<open>match[2]\<close>.
\<close>

definition parseBlock :: "string \<Rightarrow> string \<times> string \<Rightarrow> action" where
  "parseBlock i blk =
     (let type = fst blk; body = snd blk;
          action = \<lparr>id' = i, type = type, path = None, content = None, before = None,
                     command = None, url = None\<rparr>
      in if type = ''MODIFY'' then
           action\<lparr>path := getField body ''FILE'',
                   before := getCodeBlock body ''BEFORE'',
                   content := getCodeBlock body ''AFTER''\<rparr>
         else if type = ''CREATE'' then
           action\<lparr>path := getField body ''FILE'', content := getCodeBlock body ''CONTENT''\<rparr>
         else if type = ''DELETE'' then action\<lparr>path := getField body ''FILE''\<rparr>
         else if type = ''SHELL'' then action\<lparr>command := getField body ''COMMAND''\<rparr>
         else if type = ''FETCH'' then action\<lparr>url := getField body ''URL''\<rparr>
         else action)"

text \<open>
  The body of the loop, over the matches in order. The identifiers come from
  \<^verbatim>\<open>Math.random()\<close>; \<open>ids k\<close> is the one drawn for match \<open>k\<close>. The guard
  \<^verbatim>\<open>if (action.type)\<close> asks for a non-empty string. The pair holds \<^verbatim>\<open>currentBatch\<close>
  and the provider.
\<close>

fun parseLoop ::
  "(nat \<Rightarrow> string) \<Rightarrow> nat \<Rightarrow> (string \<times> string) list \<Rightarrow> action list \<times> provider
     \<Rightarrow> action list \<times> provider" where
  "parseLoop ids k [] bs = bs"
| "parseLoop ids k (blk # blks) bs =
     (let action = parseBlock (ids k) blk;
          currentBatch = fst bs; s = snd bs
      in if type action \<noteq> [] then
           parseLoop ids (Suc k) blks
             (currentBatch @ [action],
              addToHistory (ActionCard action)
                (s\<lparr>pendingActions := pendingActions s @ [action]\<rparr>))
         else parseLoop ids (Suc k) blks bs)"

text \<open>\<^verbatim>\<open>parseAndConfirmActions(aiResponse)\<close>\<close>

definition parseAndConfirmActions :: "(nat \<Rightarrow> string) \<Rightarrow> string \<Rightarrow> provider \<Rightarrow> provider" where
  "parseAndConfirmActions ids aiResponse s =
     (let bs = parseLoop ids 0 (findBlocks aiResponse) ([], addToHistory (AiText aiResponse) s);
          currentBatch = fst bs; s1 = snd bs
      in if currentBatch \<noteq> [] then postMessage (ToggleApproveAll True) s1
         else addToHistory NoToolCall s1)"

section \<open>Example inputs\<close>

text \<open>
  A workspace with one file of three lines, a host that joins paths with a slash and
  accepts every URL, and a queue of a MODIFY, a SHELL and a CREATE action; a MODIFY
  whose \<^verbatim>\<open>before\<close> is not in the file; an indented document and the same lines
  without indentation.
\<close>

definition exampleHost :: host where
  "exampleHost = \<lparr>resolve = (\<lambda>root p. root @ ''/'' @ p), parsesAsUri = (\<lambda>u. True)\<rparr>"

definition exampleText :: string where
  "exampleText = [CHR ''a'', LF, CHR ''b'', LF, CHR ''c'', LF]"

definition exampleWorld :: world where
  "exampleWorld =
     \<lparr>workspaceRoot = Some ''/w'', files = [''/w/a.txt'' \<mapsto> exampleText],
      terminal = [], openedUrls = [], errorMessages = []\<rparr>"

definition modifyAction :: action where
  "modifyAction =
     \<lparr>id' = ''m1'', type = ''MODIFY'', path = Some ''a.txt'', content = Some ''B'',
      before = Some ''b'', command = None, url = None\<rparr>"

definition shellAction :: action where
  "shellAction =
     \<lparr>id' = ''s1'', type = ''SHELL'', path = None, content = None, before = None,
      command = Some ''ls'', url = None\<rparr>"

definition createAction :: action where
  "createAction =
     \<lparr>id' = ''c1'', type = ''CREATE'', path = Some ''n.txt'', content = Some ''hi'',
      before = None, command = None, url = None\<rparr>"

definition staleAction :: action where
  "staleAction =
     \<lparr>id' = ''m2'', type = ''MODIFY'', path = Some ''a.txt'', content = Some ''B'',
      before = Some ''zzz'', command = None, url = None\<rparr>"

definition exampleProvider :: "action list \<Rightarrow> provider" where
  "exampleProvider queue =
     \<lparr>pendingActions = queue, chatHistory = [], view = True, posted = [],
      world = exampleWorld\<rparr>"



text \<open>
  A document with CR LF terminators and a block that starts with the LF of one of them;
  a workspace whose file is the indented document, with the MODIFY that rewrites it;
  two actions that bear the same identifier.
\<close>

definition crlfText :: string where
  "crlfText = [CHR ''a'', CR, LF, CR, LF, CHR ''f'', CHR ''o'', CHR ''o'', CR, LF]"

definition crlfBlock :: string where
  "crlfBlock = [LF, CHR ''f'', CHR ''o'', CHR ''o'']"




definition twinShell :: action where
  "twinShell =
     \<lparr>id' = ''x'', type = ''SHELL'', path = None, content = None, before = None,
      command = Some ''ls'', url = None\<rparr>"

definition twinCreate :: action where
  "twinCreate =
     \<lparr>id' = ''x'', type = ''CREATE'', path = Some ''n.txt'', content = Some ''hi'',
      before = None, command = None, url = None\<rparr>"

text \<open>
  The reply that creates \<^verbatim>\<open>a.txt\<close>, a reply whose marker bears a word that is no action
  type, and a supply of identifiers.
\<close>

definition createReply :: string where
  "createReply =
     ''{{TOOL_CALL:CREATE}}'' @ [LF] @ ''FILE: a.txt'' @ [LF] @ ''CONTENT:'' @ [LF]
       @ fence @ [LF] @ ''hello'' @ [LF] @ fence @ [LF]"

definition renameReply :: string where
  "renameReply = ''{{TOOL_CALL:RENAME}}'' @ [LF] @ ''FILE: a.txt'' @ [LF]"

definition exampleIds :: "nat \<Rightarrow> string" where
  "exampleIds k = replicate (Suc k) (CHR ''x'')"

section \<open>The exact stage\<close>

lemma indexOf_Some:
  "indexOf t b = Some k \<Longrightarrow>
     k \<le> length t \<and> prefix b (drop k t) \<and> (\<forall>j<k. \<not> prefix b (drop j t))"
proof (induction t arbitrary: k)
  case Nil
  then show ?case by (simp split: if_splits)
next
  case (Cons c cs)
  show ?case
  proof (cases "prefix b (c # cs)")
    case True
    with Cons.prems show ?thesis by simp
  next
    case False
    with Cons.prems obtain k' where k': "indexOf cs b = Some k'" "k = Suc k'"
      by auto
    from Cons.IH [OF k'(1)] have ih:
      "k' \<le> length cs" "prefix b (drop k' cs)" "\<forall>j<k'. \<not> prefix b (drop j cs)"
      by auto
    have "\<not> prefix b (drop j (c # cs))" if "j < k" for j
    proof (cases j)
      case 0
      with False show ?thesis by simp
    next
      case (Suc j')
      with that k'(2) ih(3) show ?thesis by simp
    qed
    with ih k'(2) show ?thesis by simp
  qed
qed

lemma indexOf_None:
  "indexOf t b = None \<Longrightarrow> \<not> prefix b (drop j t)"
proof (induction t arbitrary: j)
  case Nil
  then show ?case by (simp split: if_splits)
next
  case (Cons c cs)
  then show ?case by (cases j) (auto split: if_splits)
qed

lemma indexOf_None_iff:
  "indexOf t b = None \<longleftrightarrow> \<not> (\<exists>pre post. t = pre @ b @ post)"
proof
  assume n: "indexOf t b = None"
  show "\<not> (\<exists>pre post. t = pre @ b @ post)"
  proof
    assume "\<exists>pre post. t = pre @ b @ post"
    then obtain pre post where "t = pre @ b @ post" by blast
    then have "prefix b (drop (length pre) t)" by simp
    with indexOf_None [OF n] show False by blast
  qed
next
  assume a: "\<not> (\<exists>pre post. t = pre @ b @ post)"
  show "indexOf t b = None"
  proof (rule ccontr)
    assume "indexOf t b \<noteq> None"
    then obtain k where k: "indexOf t b = Some k" by auto
    from indexOf_Some [OF k] have "prefix b (drop k t)" by simp
    then obtain post where "drop k t = b @ post" by (auto simp: prefix_def)
    then have "t = take k t @ b @ post"
      by (metis append_take_drop_id)
    with a show False by blast
  qed
qed

section \<open>The line stage\<close>

subsection \<open>The effective lines\<close>

declare skipLeadingBlank.simps [simp del] skipTrailingBlank.simps [simp del]

lemma skipLeadingBlank_eq:
  "s \<le> length ls \<Longrightarrow>
     skipLeadingBlank ls s (int (length ls) - 1) = s + length (takeWhile isBlank (drop s ls))"
proof (induction "length ls - s" arbitrary: s)
  case 0
  then have "s = length ls" by simp
  then show ?case by (subst skipLeadingBlank.simps) simp
next
  case (Suc n)
  then have lt: "s < length ls" by simp
  then have d: "drop s ls = ls ! s # drop (Suc s) ls"
    by (simp add: Cons_nth_drop_Suc)
  show ?case
  proof (cases "trim (ls ! s) = []")
    case True
    from Suc.hyps(1) [of "Suc s"] Suc.hyps(2) lt
    have "skipLeadingBlank ls (Suc s) (int (length ls) - 1)
        = Suc s + length (takeWhile isBlank (drop (Suc s) ls))"
      by simp
    with True lt show ?thesis
      by (simp add: skipLeadingBlank.simps [of ls s] d isBlank_def)
  next
    case False
    with lt show ?thesis
      by (simp add: skipLeadingBlank.simps [of ls s] d isBlank_def)
  qed
qed

lemma skipTrailingBlank_eq:
  "s \<le> n \<Longrightarrow> n \<le> length ls \<Longrightarrow>
     skipTrailingBlank ls s (int n - 1)
       = int (s + length (dropWhile isBlank (rev (take (n - s) (drop s ls))))) - 1"
proof (induction "n - s" arbitrary: n)
  case 0
  then have "n = s" by simp
  then show ?case by (subst skipTrailingBlank.simps) simp
next
  case (Suc m)
  then obtain n' where n': "n = Suc n'" "s \<le> n'" "n' < length ls"
    by (cases n) auto
  have tk: "take (Suc n' - s) (drop s ls) = take (n' - s) (drop s ls) @ [ls ! n']"
    using n' by (simp add: Suc_diff_le take_Suc_conv_app_nth)
  have len: "length (take (n' - s) (drop s ls)) = n' - s"
    using n' by simp
  have e: "int n - 1 = int n'"
    using n' by simp
  have step: "skipTrailingBlank ls s (int n')
      = (if trim (ls ! n') = [] then skipTrailingBlank ls s (int n' - 1) else int n')"
    using n' by (subst skipTrailingBlank.simps) simp
  show ?case
  proof (cases "trim (ls ! n') = []")
    case True
    from Suc.hyps(1) [of n'] Suc.hyps(2) n'
    have "skipTrailingBlank ls s (int n' - 1)
        = int (s + length (dropWhile isBlank (rev (take (n' - s) (drop s ls))))) - 1"
      by simp
    with True show ?thesis
      by (simp add: n'(1) step tk isBlank_def)
  next
    case False
    with n'(2) show ?thesis
      by (simp add: n'(1) step tk isBlank_def len del: length_take)
  qed
qed

lemma effectiveSearchLines_dropWhile:
  "effectiveSearchLines ls = rev (dropWhile isBlank (rev (dropWhile isBlank ls)))"
proof -
  define s where "s = length (takeWhile isBlank ls)"
  have s: "s \<le> length ls"
    by (simp add: s_def length_takeWhile_le)
  have start: "skipLeadingBlank ls 0 (int (length ls) - 1) = s"
    using skipLeadingBlank_eq [of 0 ls] by (simp add: s_def)
  have rest: "drop s ls = dropWhile isBlank ls"
    by (simp add: s_def dropWhile_eq_drop)
  define k where "k = length (dropWhile isBlank (rev (dropWhile isBlank ls)))"
  have "take (length ls - s) (drop s ls) = drop s ls"
    by simp
  with skipTrailingBlank_eq [OF s, of ls]
  have "skipTrailingBlank ls s (int (length ls) - 1)
      = int (s + length (dropWhile isBlank (rev (drop s ls)))) - 1"
    by simp
  then have "skipTrailingBlank ls s (int (length ls) - 1) = int (s + k) - 1"
    by (simp add: k_def rest)
  moreover have "nat (int (s + k) - 1 + 1) - s = k"
    by simp
  ultimately have "effectiveSearchLines ls = take k (dropWhile isBlank ls)"
    by (simp add: effectiveSearchLines_def start slice_def rest del: of_nat_add)
  also have "\<dots> = rev (dropWhile isBlank (rev (dropWhile isBlank ls)))"
  proof -
    have "rev (dropWhile isBlank ls)
        = takeWhile isBlank (rev (dropWhile isBlank ls)) @ dropWhile isBlank (rev (dropWhile isBlank ls))"
      by simp
    then have "dropWhile isBlank ls
        = rev (dropWhile isBlank (rev (dropWhile isBlank ls)))
            @ rev (takeWhile isBlank (rev (dropWhile isBlank ls)))"
      by (metis rev_append rev_rev_ident)
    then have "take k (dropWhile isBlank ls)
        = take k (rev (dropWhile isBlank (rev (dropWhile isBlank ls)))
            @ rev (takeWhile isBlank (rev (dropWhile isBlank ls))))"
      by simp
    also have "\<dots> = rev (dropWhile isBlank (rev (dropWhile isBlank ls)))"
      by (simp add: k_def)
    finally show ?thesis .
  qed
  finally show ?thesis .
qed

subsection \<open>The first matching line\<close>

lemma matchesAt_iff:
  "matchesAt docLines effective i
     \<longleftrightarrow> (\<forall>j<length effective. trim (docLines ! (i + j)) = trim (effective ! j))"
  by (auto simp: matchesAt_def list_all_iff)


lemma find_upt_None: "find P [0..<n] = None \<longleftrightarrow> (\<forall>i<n. \<not> P i)"
  by (auto simp: find_None_iff)


lemma foundLineIndex_None:
  "foundLineIndex docLines effective = None
     \<longleftrightarrow> (\<forall>i. i + length effective \<le> length docLines \<longrightarrow> \<not> matchesAt docLines effective i)"
proof (cases "length effective \<le> length docLines")
  case True
  have "(\<forall>i<Suc (length docLines - length effective). \<not> matchesAt docLines effective i)
          \<longleftrightarrow> (\<forall>i. i + length effective \<le> length docLines \<longrightarrow> \<not> matchesAt docLines effective i)"
    using True by (auto simp: less_Suc_eq_le le_diff_conv2)
  with True show ?thesis by (simp add: foundLineIndex_def find_upt_None del: upt_Suc)
next
  case False
  then show ?thesis by (auto simp: foundLineIndex_def)
qed

subsection \<open>Lines and their offsets\<close>

lemma splitLines_nonempty [simp]: "splitLines s \<noteq> []"
  by (induction s rule: splitLines.induct) (auto split: list.splits)

lemma lineSpansFrom_nonempty [simp]: "lineSpansFrom st p s \<noteq> []"
  by (induction st p s rule: lineSpansFrom.induct) auto

lemma lineSpansFrom_length: "length (lineSpansFrom st p s) = length (splitLines s)"
  by (induction st p s rule: lineSpansFrom.induct) (auto split: list.splits)

lemma lineSpansFrom_first: "fst (lineSpansFrom st p s ! 0) = st"
  by (induction st p s rule: lineSpansFrom.induct) auto

lemma lineSpans_length: "length (lineSpans t) = length (splitLines t)"
  by (simp add: lineSpans_def lineSpansFrom_length)


lemma splitLines_LF: "splitLines (LF # cs) = [] # splitLines cs"
  by simp

lemma splitLines_CRLF: "splitLines (CR # LF # cs) = [] # splitLines cs"
  by simp

lemma splitLines_plain:
  "c \<noteq> LF \<Longrightarrow> \<not> (c = CR \<and> take 1 cs = [LF]) \<Longrightarrow>
     splitLines (c # cs) = (c # hd (splitLines cs)) # tl (splitLines cs)"
  by (cases "splitLines cs") auto

lemma lineSpansFrom_LF:
  "lineSpansFrom st p (LF # cs) = (st, p) # lineSpansFrom (p + 1) (p + 1) cs"
  by simp

lemma lineSpansFrom_CRLF:
  "lineSpansFrom st p (CR # LF # cs) = (st, p) # lineSpansFrom (p + 2) (p + 2) cs"
  by simp

lemma lineSpansFrom_plain:
  "c \<noteq> LF \<Longrightarrow> \<not> (c = CR \<and> take 1 cs = [LF]) \<Longrightarrow>
     lineSpansFrom st p (c # cs) = lineSpansFrom st (p + 1) cs"
  by auto

lemma line_cases:
  obtains (lf) cs where "s = LF # cs"
  | (crlf) cs where "s = CR # LF # cs"
  | (plain) c cs where "s = c # cs" "c \<noteq> LF" "\<not> (c = CR \<and> take 1 cs = [LF])"
  | (nil) "s = []"
proof (cases s)
  case Nil
  then show ?thesis using nil by simp
next
  case (Cons c cs)
  show ?thesis
  proof (cases "c = LF")
    case True
    with Cons lf show ?thesis by simp
  next
    case False
    show ?thesis
    proof (cases "c = CR \<and> take 1 cs = [LF]")
      case True
      then obtain cs' where "cs = LF # cs'" by (cases cs) auto
      with True Cons crlf show ?thesis by simp
    next
      case False
      with \<open>c \<noteq> LF\<close> Cons plain show ?thesis by simp
    qed
  qed
qed





text \<open>Every line is the text between its two offsets.\<close>

lemma lineSpansFrom_slices:
  "st \<le> length pre \<Longrightarrow>
     map (\<lambda>(a, b). take (b - a) (drop a (pre @ s))) (lineSpansFrom st (length pre) s)
       = (drop st pre @ hd (splitLines s)) # tl (splitLines s)"
proof (induction "length s" arbitrary: s st pre rule: less_induct)
  case less
  have first: "take (length pre - st) (drop st (pre @ x)) = drop st pre" for x
    using less.prems by simp
  show ?case
  proof (cases s rule: line_cases)
    case nil
    with less.prems show ?thesis by simp
  next
    case (lf cs)
    from less.hyps [of cs "length (pre @ [LF])" "pre @ [LF]"] lf
    have "map (\<lambda>(a, b). take (b - a) (drop a ((pre @ [LF]) @ cs)))
            (lineSpansFrom (length pre + 1) (length pre + 1) cs)
          = splitLines cs"
      by simp
    then show ?thesis
      unfolding lf using first [of "LF # cs"]
      by (simp add: lineSpansFrom_LF splitLines_LF del: lineSpansFrom.simps splitLines.simps)
  next
    case (crlf cs)
    from less.hyps [of cs "length (pre @ [CR, LF])" "pre @ [CR, LF]"] crlf
    have "map (\<lambda>(a, b). take (b - a) (drop a ((pre @ [CR, LF]) @ cs)))
            (lineSpansFrom (length pre + 2) (length pre + 2) cs)
          = splitLines cs"
      by simp
    then show ?thesis
      unfolding crlf using first [of "CR # LF # cs"]
      by (simp add: lineSpansFrom_CRLF splitLines_CRLF del: lineSpansFrom.simps splitLines.simps)
  next
    case (plain c cs)
    from less.hyps [of cs st "pre @ [c]"] plain(1) less.prems
    have "map (\<lambda>(a, b). take (b - a) (drop a ((pre @ [c]) @ cs)))
            (lineSpansFrom st (length pre + 1) cs)
          = (drop st (pre @ [c]) @ hd (splitLines cs)) # tl (splitLines cs)"
      by simp
    then show ?thesis
      unfolding plain(1) using plain(2,3) less.prems
      by (simp add: lineSpansFrom_plain splitLines_plain del: lineSpansFrom.simps splitLines.simps)
  qed
qed

lemma lineSpans_slices:
  "map (\<lambda>(a, b). take (b - a) (drop a t)) (lineSpans t) = splitLines t"
  using lineSpansFrom_slices [of 0 "[]" t] by (simp add: lineSpans_def)

lemma splitLines_nth:
  assumes "k < length (splitLines t)"
  shows "splitLines t ! k = take (lineEnd t k - lineStart t k) (drop (lineStart t k) t)"
proof -
  have "splitLines t ! k = map (\<lambda>(a, b). take (b - a) (drop a t)) (lineSpans t) ! k"
    by (simp add: lineSpans_slices)
  also have "\<dots> = (\<lambda>(a, b). take (b - a) (drop a t)) (lineSpans t ! k)"
    using assms by (simp add: lineSpans_length)
  finally show ?thesis
    by (simp add: lineStart_def lineEnd_def case_prod_unfold)
qed

text \<open>
  C6. When \<open>before\<close> is nowhere in the text and no effective line is left of it, the
  error is the one of the empty block, in the matcher and for the MODIFY action whose
  file holds that text.
\<close>

theorem blank_block_is_empty_patch_block:
  assumes "indexOf fullText beforeText = None"
    and "effectiveSearchLines (splitLines beforeText) = []"
  shows "locate fullText beforeText = Inl EmptyPatchBlock
         \<and> (path a = Some p \<and> before a = Some beforeText
              \<and> files w (resolve h root p) = Some fullText
            \<longrightarrow> modify h root a w = Inl EmptyPatchBlock)"
  using assms by (simp add: locate_def modify_def)

theorem blank_block_is_empty_patch_block_witness:
  "indexOf ''abc'' [CHR '' '', LF, CHR 0x09] = None
   \<and> effectiveSearchLines (splitLines [CHR '' '', LF, CHR 0x09]) = []
   \<and> locate ''abc'' [CHR '' '', LF, CHR 0x09] = Inl EmptyPatchBlock"
proof -
  have 1: "indexOf ''abc'' [CHR '' '', LF, CHR 0x09] = None"
    by simp
  have 2: "effectiveSearchLines (splitLines [CHR '' '', LF, CHR 0x09]) = []"
    by (simp add: effectiveSearchLines_dropWhile isBlank_def trim_def isWhiteSpace_def)
  from blank_block_is_empty_patch_block [OF 1 2] 1 2 show ?thesis by simp
qed

section \<open>Positions and the range of the exact stage\<close>

lemma positionIn_clampIn:
  "spans \<noteq> [] \<Longrightarrow>
     \<exists>k<length spans. fst (positionIn spans line offset) = line + k
        \<and> fst (spans ! k) + snd (positionIn spans line offset) = clampIn spans offset"
proof (induction spans line offset rule: positionIn.induct)
  case (1 line offset)
  then show ?case by simp
next
  case (2 sp line offset)
  show ?case by (intro exI [of _ 0]) simp
next
  case (3 sp "next" spans line offset)
  show ?case
  proof (cases "offset < fst next")
    case True
    then show ?thesis by (intro exI [of _ 0]) simp
  next
    case False
    with 3 obtain k where "k < length (next # spans)"
      "fst (positionIn (next # spans) (Suc line) offset) = Suc line + k"
      "fst ((next # spans) ! k) + snd (positionIn (next # spans) (Suc line) offset)
         = clampIn (next # spans) offset"
      by auto
    with False show ?thesis by (intro exI [of _ "Suc k"]) simp
  qed
qed

lemma offsetAt_positionAt: "offsetAt t (positionAt t offset) = clampIn (lineSpans t) offset"
proof -
  have "lineSpans t \<noteq> []" by (simp add: lineSpans_def)
  from positionIn_clampIn [OF this, of 0 offset] show ?thesis
    by (auto simp: offsetAt_def positionAt_def lineStart_def)
qed

lemma lineSpansFrom_Cons:
  "\<exists>e spans. lineSpansFrom st p s = (st, e) # spans"
proof -
  obtain sp spans where c: "lineSpansFrom st p s = sp # spans"
    by (cases "lineSpansFrom st p s") simp_all
  with lineSpansFrom_first [of st p s] have "fst sp = st" by simp
  with c show ?thesis by (cases sp) auto
qed

lemma splitsTerminator_0 [simp]: "\<not> splitsTerminator s 0"
  by (simp add: splitsTerminator_def)

lemma splitsTerminator_LF:
  "splitsTerminator (LF # cs) j \<longleftrightarrow> 1 < j \<and> splitsTerminator cs (j - 1)"
proof (cases j)
  case 0
  then show ?thesis by (simp add: splitsTerminator_def)
next
  case (Suc j')
  then show ?thesis
    by (cases j') (auto simp: splitsTerminator_def)
qed

lemma splitsTerminator_CRLF:
  "splitsTerminator (CR # LF # cs) j \<longleftrightarrow> j = 1 \<or> 2 < j \<and> splitsTerminator cs (j - 2)"
proof (cases j)
  case 0
  then show ?thesis by (simp add: splitsTerminator_def)
next
  case (Suc j')
  show ?thesis
  proof (cases j')
    case 0
    with Suc show ?thesis by (simp add: splitsTerminator_def)
  next
    case (Suc j'')
    with \<open>j = Suc j'\<close> show ?thesis
      by (cases j'') (auto simp: splitsTerminator_def)
  qed
qed

lemma splitsTerminator_plain:
  assumes "\<not> (c = CR \<and> take 1 cs = [LF])"
  shows "splitsTerminator (c # cs) j \<longleftrightarrow> 1 < j \<and> splitsTerminator cs (j - 1)"
proof (cases j)
  case 0
  then show ?thesis by (simp add: splitsTerminator_def)
next
  case (Suc j')
  show ?thesis
  proof (cases j')
    case 0
    with Suc assms show ?thesis
      by (cases cs) (auto simp: splitsTerminator_def)
  next
    case (Suc j'')
    with \<open>j = Suc j'\<close> show ?thesis
      by (auto simp: splitsTerminator_def)
  qed
qed

lemma clampIn_lineSpansFrom:
  "st \<le> offset \<Longrightarrow> st \<le> p \<Longrightarrow> offset \<le> p + length s \<Longrightarrow>
     clampIn (lineSpansFrom st p s) offset
       = (if splitsTerminator s (offset - p) then offset - 1 else offset)"
proof (induction "length s" arbitrary: s st p rule: less_induct)
  case less
  show ?case
  proof (cases s rule: line_cases)
    case nil
    with less.prems show ?thesis by (simp add: splitsTerminator_def)
  next
    case (lf cs)
    obtain e spans where sp: "lineSpansFrom (Suc p) (Suc p) cs = (Suc p, e) # spans"
      using lineSpansFrom_Cons by blast
    show ?thesis
    proof (cases "offset < p + 1")
      case True
      with less.prems show ?thesis
        unfolding lf by (simp add: lineSpansFrom_LF sp splitsTerminator_LF del: lineSpansFrom.simps)
    next
      case False
      with less.hyps [of cs "p + 1" "p + 1"] less.prems lf
      have "clampIn (lineSpansFrom (p + 1) (p + 1) cs) offset
          = (if splitsTerminator cs (offset - (p + 1)) then offset - 1 else offset)"
        by simp
      with False show ?thesis
        unfolding lf
        by (auto simp: lineSpansFrom_LF sp splitsTerminator_LF simp del: lineSpansFrom.simps)
    qed
  next
    case (crlf cs)
    obtain e spans where sp: "lineSpansFrom (Suc (Suc p)) (Suc (Suc p)) cs = (Suc (Suc p), e) # spans"
      using lineSpansFrom_Cons by blast
    show ?thesis
    proof (cases "offset < p + 2")
      case True
      with less.prems show ?thesis
        unfolding crlf
        by (auto simp: lineSpansFrom_CRLF sp splitsTerminator_CRLF simp del: lineSpansFrom.simps)
    next
      case False
      with less.hyps [of cs "p + 2" "p + 2"] less.prems crlf
      have "clampIn (lineSpansFrom (p + 2) (p + 2) cs) offset
          = (if splitsTerminator cs (offset - (p + 2)) then offset - 1 else offset)"
        by simp
      with False show ?thesis
        unfolding crlf
        by (auto simp: lineSpansFrom_CRLF sp splitsTerminator_CRLF simp del: lineSpansFrom.simps)
    qed
  next
    case (plain c cs)
    show ?thesis
    proof (cases "offset \<le> p")
      case True
      have "clampIn (lineSpansFrom st (p + 1) cs) offset
          = (if splitsTerminator cs (offset - (p + 1)) then offset - 1 else offset)"
        using less.hyps [of cs st "p + 1"] less.prems plain(1) True by simp
      with True plain(2,3) show ?thesis
        unfolding plain(1)
        by (simp add: lineSpansFrom_plain splitsTerminator_plain splitsTerminator_def
            del: lineSpansFrom.simps)
    next
      case False
      have "clampIn (lineSpansFrom st (p + 1) cs) offset
          = (if splitsTerminator cs (offset - (p + 1)) then offset - 1 else offset)"
        using less.hyps [of cs st "p + 1"] less.prems plain(1) False by simp
      with False plain(2,3) show ?thesis
        unfolding plain(1)
        by (auto simp: lineSpansFrom_plain splitsTerminator_plain simp del: lineSpansFrom.simps)
    qed
  qed
qed

lemma offsetAt_positionAt_eq:
  "offset \<le> length t \<Longrightarrow>
     offsetAt t (positionAt t offset) = (if splitsTerminator t offset then offset - 1 else offset)"
  using clampIn_lineSpansFrom [of 0 offset 0 t]
  by (simp add: offsetAt_positionAt lineSpans_def)

lemma locate_exact:
  assumes "indexOf fullText beforeText = Some offset"
  shows "locate fullText beforeText
           = Inr (if splitsTerminator fullText offset then offset - 1 else offset,
                  if splitsTerminator fullText (offset + length beforeText)
                  then offset + length beforeText - 1 else offset + length beforeText)"
proof -
  from indexOf_Some [OF assms] have "offset \<le> length fullText"
    and "prefix beforeText (drop offset fullText)"
    by auto
  then have "length beforeText \<le> length fullText - offset"
    by (metis length_drop prefix_length_le)
  with \<open>offset \<le> length fullText\<close> have "offset + length beforeText \<le> length fullText"
    by simp
  with \<open>offset \<le> length fullText\<close> assms show ?thesis
    by (simp add: locate_def offsetAt_positionAt_eq)
qed

lemma no_CR_no_split: "CR \<notin> set s \<Longrightarrow> \<not> splitsTerminator s k"
proof
  assume "CR \<notin> set s" and "splitsTerminator s k"
  then have "k - 1 < length s" "s ! (k - 1) = CR"
    by (auto simp: splitsTerminator_def)
  then have "CR \<in> set s"
    by (metis nth_mem)
  with \<open>CR \<notin> set s\<close> show False by simp
qed

text \<open>
  C1, as the code has it. When \<open>before\<close> occurs in the file's text, the exact stage
  finds the offset of its first occurrence: the text there is \<open>before\<close> itself,
  character for character, and \<open>before\<close> is at no smaller offset. The range that
  MODIFY replaces starts at that offset and is as long as \<open>before\<close> whenever neither
  end of it lies between the CR and the LF of a CR LF pair; that is so in every text
  without CR.
\<close>

theorem locate_exact_first_occurrence:
  assumes "fullText = pre @ beforeText @ post"
  shows "\<exists>offset. offset \<le> length pre
           \<and> take (length beforeText) (drop offset fullText) = beforeText
           \<and> (\<forall>k<offset. take (length beforeText) (drop k fullText) \<noteq> beforeText)
           \<and> (\<not> splitsTerminator fullText offset
                \<and> \<not> splitsTerminator fullText (offset + length beforeText) \<longrightarrow>
                locate fullText beforeText = Inr (offset, offset + length beforeText))
           \<and> (CR \<notin> set fullText \<longrightarrow>
                locate fullText beforeText = Inr (offset, offset + length beforeText))"
proof -
  have occ: "prefix beforeText (drop (length pre) fullText)"
    using assms by simp
  then obtain offset where off: "indexOf fullText beforeText = Some offset"
    using indexOf_None [of fullText beforeText "length pre"]
    by (cases "indexOf fullText beforeText") auto
  from indexOf_Some [OF off] have first:
    "prefix beforeText (drop offset fullText)"
    "\<forall>j<offset. \<not> prefix beforeText (drop j fullText)"
    by auto
  have "offset \<le> length pre"
    using first(2) occ by (meson not_le_imp_less)
  moreover have "take (length beforeText) (drop offset fullText) = beforeText"
    using first(1) by (auto simp: prefix_def)
  moreover have "take (length beforeText) (drop k fullText) \<noteq> beforeText" if "k < offset" for k
  proof
    assume "take (length beforeText) (drop k fullText) = beforeText"
    then have "prefix beforeText (drop k fullText)"
      by (metis take_is_prefix)
    with first(2) that show False by blast
  qed
  moreover have "locate fullText beforeText = Inr (offset, offset + length beforeText)"
    if "\<not> splitsTerminator fullText offset"
      "\<not> splitsTerminator fullText (offset + length beforeText)"
    using locate_exact [OF off] that by simp
  moreover have "locate fullText beforeText = Inr (offset, offset + length beforeText)"
    if "CR \<notin> set fullText"
    using locate_exact [OF off] no_CR_no_split [OF that] by simp
  ultimately show ?thesis by blast
qed

theorem locate_exact_first_occurrence_witness:
  "CR \<notin> set exampleText \<and> locate exampleText ''b'' = Inr (2, 3)"
proof -
  have cr: "CR \<notin> set exampleText"
    by (simp add: exampleText_def)
  have "exampleText = [CHR ''a'', LF] @ ''b'' @ [LF, CHR ''c'', LF]"
    by (simp add: exampleText_def)
  from locate_exact_first_occurrence [OF this] cr obtain offset where
    o: "locate exampleText ''b'' = Inr (offset, offset + length ''b'')"
      "take (length ''b'') (drop offset exampleText) = ''b''"
      "offset \<le> length [CHR ''a'', LF]"
    by blast
  have "offset = 2"
  proof -
    from o(3) have "offset = 0 \<or> offset = 1 \<or> offset = 2"
      by auto
    with o(2) show ?thesis
      by (auto simp: exampleText_def)
  qed
  with o(1) cr show ?thesis by simp
qed

text \<open>
  C1 as stated fails in a document with CR LF terminators: the first occurrence of the
  block is at offset 4, between a CR and its LF, and the range that is replaced starts
  at offset 3, so the CR goes with the block.
\<close>

theorem exact_range_in_terminator:
  "indexOf crlfText crlfBlock = Some 4
   \<and> length crlfBlock = 4
   \<and> locate crlfText crlfBlock = Inr (3, 8)
   \<and> replaceRange crlfText (3, 8) ''X'' = [CHR ''a'', CR, LF, CHR ''X'', CR, LF]"
proof -
  have i: "indexOf crlfText crlfBlock = Some 4"
    by (simp add: crlfText_def crlfBlock_def)
  have "splitsTerminator crlfText 4" "\<not> splitsTerminator crlfText (4 + length crlfBlock)"
    by (simp_all add: splitsTerminator_def crlfText_def crlfBlock_def)
  with locate_exact [OF i] have "locate crlfText crlfBlock = Inr (3, 8)"
    by (simp add: crlfBlock_def)
  with i show ?thesis
    by (simp add: crlfBlock_def crlfText_def replaceRange_def)
qed

section \<open>Executing and approving\<close>

lemma findIndex_None_iff: "findIndex P xs = None \<longleftrightarrow> (\<forall>x\<in>set xs. \<not> P x)"
  by (induction xs) auto

lemma findIndex_Some:
  "findIndex P xs = Some i \<Longrightarrow> i < length xs \<and> P (xs ! i) \<and> (\<forall>j<i. \<not> P (xs ! j))"
proof (induction xs arbitrary: i)
  case Nil
  then show ?case by simp
next
  case (Cons x xs)
  show ?case
  proof (cases "P x")
    case True
    with Cons.prems show ?thesis by simp
  next
    case False
    with Cons.prems obtain i' where i': "findIndex P xs = Some i'" "i = Suc i'"
      by auto
    from Cons.IH [OF i'(1)] False i'(2) show ?thesis
      by (auto simp: less_Suc_eq_0_disj)
  qed
qed

lemma postMessage_fields [simp]:
  "pendingActions (postMessage m s) = pendingActions s"
  "chatHistory (postMessage m s) = chatHistory s"
  "view (postMessage m s) = view s"
  "world (postMessage m s) = world s"
  "posted (postMessage m s) = (if view s then posted s @ [m] else posted s)"
  by (simp_all add: postMessage_def)

lemma addToHistory_fields [simp]:
  "pendingActions (addToHistory m s) = pendingActions s"
  "chatHistory (addToHistory m s) = chatHistory s @ [m]"
  "view (addToHistory m s) = view s"
  "world (addToHistory m s) = world s"
  "posted (addToHistory m s) = (if view s then posted s @ [AddMessage m] else posted s)"
  by (simp_all add: addToHistory_def)

lemma executeAction_fields:
  assumes "findIndex (\<lambda>a. id' a = actionId) (pendingActions s) = Some index"
  shows "perform h (pendingActions s ! index) (world s) = Inr w \<Longrightarrow>
           pendingActions (executeAction h actionId s) = splice1 index (pendingActions s)
           \<and> world (executeAction h actionId s) = w
           \<and> chatHistory (executeAction h actionId s) = chatHistory s"
    and "perform h (pendingActions s ! index) (world s) = Inl e \<Longrightarrow>
           pendingActions (executeAction h actionId s) = pendingActions s
           \<and> world (executeAction h actionId s)
               = (world s)\<lparr>errorMessages := errorMessages (world s) @ [e]\<rparr>
           \<and> chatHistory (executeAction h actionId s) = chatHistory s"
  using assms by (simp_all add: executeAction_def Let_def)






text \<open>
  C7. When \<open>before\<close> is nowhere in the text and no candidate line matches the
  effective lines, the MODIFY fails with the error of the block that was not found,
  the files are what they were, and the error is shown.
\<close>

theorem not_found_leaves_text_unchanged:
  fixes fullText beforeText :: string
  defines "docLines \<equiv> splitLines fullText"
    and "effective \<equiv> effectiveSearchLines (splitLines beforeText)"
  assumes exact: "\<not> (\<exists>pre post. fullText = pre @ beforeText @ post)"
    and fuzzy: "\<forall>i. i + length effective \<le> length docLines \<longrightarrow>
                  (\<exists>j<length effective. trim (docLines ! (i + j)) \<noteq> trim (effective ! j))"
    and queued: "findIndex (\<lambda>x. id' x = actionId) (pendingActions s) = Some index"
    and action: "pendingActions s ! index = a" "type a = ''MODIFY''"
      "path a = Some p" "before a = Some beforeText"
    and root: "workspaceRoot (world s) = Some root" "root \<noteq> []"
    and doc: "files (world s) (resolve h root p) = Some fullText"
  shows "locate fullText beforeText = Inl PatchNotFound
         \<and> perform h a (world s) = Inl PatchNotFound
         \<and> files (world (executeAction h actionId s)) = files (world s)
         \<and> errorMessages (world (executeAction h actionId s))
             = errorMessages (world s) @ [PatchNotFound]"
proof -
  have i: "indexOf fullText beforeText = None"
    using exact by (simp add: indexOf_None_iff)
  have none: "foundLineIndex docLines effective = None"
    using fuzzy by (auto simp: foundLineIndex_None matchesAt_iff)
  have "effective \<noteq> []"
  proof
    assume "effective = []"
    with fuzzy [rule_format, of 0] show False by simp
  qed
  with i none have l: "locate fullText beforeText = Inl PatchNotFound"
    by (simp add: locate_def docLines_def effective_def Let_def)
  then have p: "perform h a (world s) = Inl PatchNotFound"
    using action root doc by (simp add: perform_def modify_def)
  from executeAction_fields(2) [OF queued, of h PatchNotFound] p action(1) l
  show ?thesis by simp
qed

theorem not_found_leaves_text_unchanged_witness:
  "locate exampleText ''zzz'' = Inl PatchNotFound
   \<and> files (world (executeAction exampleHost ''m2'' (exampleProvider [staleAction])))
       = files exampleWorld
   \<and> errorMessages (world (executeAction exampleHost ''m2'' (exampleProvider [staleAction])))
       = [PatchNotFound]"
proof -
  have exact: "\<not> (\<exists>pre post. exampleText = pre @ ''zzz'' @ post)"
    unfolding indexOf_None_iff [symmetric] by (simp add: exampleText_def)
  have "foundLineIndex (splitLines exampleText) (effectiveSearchLines (splitLines ''zzz'')) = None"
    by (simp add: exampleText_def effectiveSearchLines_dropWhile isBlank_def trim_def isWhiteSpace_def
        foundLineIndex_def matchesAt_def)
  then have fuzzy: "\<forall>i. i + length (effectiveSearchLines (splitLines ''zzz''))
        \<le> length (splitLines exampleText) \<longrightarrow>
      (\<exists>j<length (effectiveSearchLines (splitLines ''zzz'')).
         trim (splitLines exampleText ! (i + j))
           \<noteq> trim (effectiveSearchLines (splitLines ''zzz'') ! j))"
    by (simp add: foundLineIndex_None matchesAt_iff)
  have queued: "findIndex (\<lambda>x. id' x = ''m2'') (pendingActions (exampleProvider [staleAction])) = Some 0"
    by (simp add: exampleProvider_def staleAction_def)
  have a: "pendingActions (exampleProvider [staleAction]) ! 0 = staleAction"
    "type staleAction = ''MODIFY''" "path staleAction = Some ''a.txt''"
    "before staleAction = Some ''zzz''"
    by (simp_all add: exampleProvider_def staleAction_def)
  have r: "workspaceRoot (world (exampleProvider [staleAction])) = Some ''/w''" "''/w'' \<noteq> []"
    by (simp_all add: exampleProvider_def exampleWorld_def)
  have d: "files (world (exampleProvider [staleAction])) (resolve exampleHost ''/w'' ''a.txt'')
      = Some exampleText"
    by (simp add: exampleProvider_def exampleWorld_def exampleHost_def)
  from not_found_leaves_text_unchanged [OF exact fuzzy queued a r d]
  show ?thesis
    by (simp add: exampleProvider_def exampleWorld_def)
qed




text \<open>
  C10. Executing an identifier that no queued action bears changes nothing: the
  provider, its queue and the host are what they were.
\<close>

theorem executeAction_unknown_id:
  assumes "\<forall>a\<in>set (pendingActions s). id' a \<noteq> actionId"
  shows "executeAction h actionId s = s"
proof -
  have "findIndex (\<lambda>a. id' a = actionId) (pendingActions s) = None"
    using assms by (simp add: findIndex_None_iff)
  then show ?thesis by (simp add: executeAction_def)
qed

theorem executeAction_unknown_id_witness:
  "executeAction exampleHost ''zz'' (exampleProvider [modifyAction, shellAction, createAction])
     = exampleProvider [modifyAction, shellAction, createAction]"
  using executeAction_unknown_id
    [of "exampleProvider [modifyAction, shellAction, createAction]" "''zz''" exampleHost]
  by (simp add: exampleProvider_def modifyAction_def shellAction_def createAction_def)

subsection \<open>Approving all\<close>

lemma findIndex_distinct:
  assumes "distinct (map f xs)" and "a \<in> set xs"
  shows "\<exists>i. findIndex (\<lambda>x. f x = f a) xs = Some i \<and> xs ! i = a
           \<and> splice1 i xs = remove1 a xs"
  using assms
proof (induction xs)
  case Nil
  then show ?case by simp
next
  case (Cons x xs)
  show ?case
  proof (cases "x = a")
    case True
    then show ?thesis by (simp add: splice1_def)
  next
    case False
    with Cons.prems have a: "a \<in> set xs" and fx: "f x \<noteq> f a" and d: "distinct (map f xs)"
      by auto
    from Cons.IH [OF d a] obtain i where
      "findIndex (\<lambda>x. f x = f a) xs = Some i" "xs ! i = a" "splice1 i xs = remove1 a xs"
      by blast
    with fx False show ?thesis
      by (intro exI [of _ "Suc i"]) (simp add: splice1_def)
  qed
qed

lemma executeAction_queued:
  assumes "distinct (map id' (pendingActions s))" and "a \<in> set (pendingActions s)"
  shows "world (executeAction h (id' a) s) = settle h (world s) a"
    and "chatHistory (executeAction h (id' a) s) = chatHistory s"
    and "pendingActions (executeAction h (id' a) s) = pendingActions s
         \<or> pendingActions (executeAction h (id' a) s) = remove1 a (pendingActions s)"
proof -
  from findIndex_distinct [OF assms] obtain i where
    i: "findIndex (\<lambda>x. id' x = id' a) (pendingActions s) = Some i"
    and a: "pendingActions s ! i = a"
    and r: "splice1 i (pendingActions s) = remove1 a (pendingActions s)"
    by blast
  show "world (executeAction h (id' a) s) = settle h (world s) a"
    using executeAction_fields [OF i, of h] a
    by (cases "perform h a (world s)") (simp_all add: settle_def)
  show "chatHistory (executeAction h (id' a) s) = chatHistory s"
    using executeAction_fields [OF i, of h] a
    by (cases "perform h a (world s)") simp_all
  show "pendingActions (executeAction h (id' a) s) = pendingActions s
         \<or> pendingActions (executeAction h (id' a) s) = remove1 a (pendingActions s)"
    using executeAction_fields [OF i, of h] a r
    by (cases "perform h a (world s)") simp_all
qed

lemma perform_keeps_terminal:
  "type a \<noteq> ''SHELL'' \<Longrightarrow> perform h a w = Inr w' \<Longrightarrow> terminal w' = terminal w"
  by (auto simp: perform_def modify_def split: option.splits if_splits sum.splits)

lemma settle_keeps_terminal:
  "type a \<noteq> ''SHELL'' \<Longrightarrow> terminal (settle h w a) = terminal w"
  by (cases "perform h a w") (auto simp: settle_def dest: perform_keeps_terminal)

lemma performInOrder_keeps_terminal:
  "\<forall>a\<in>set as. type a \<noteq> ''SHELL'' \<Longrightarrow> terminal (performInOrder h as w) = terminal w"
  by (induction as arbitrary: w) (simp_all add: performInOrder_def settle_keeps_terminal)

lemma distinct_map_remove1:
  "distinct (map f xs) \<Longrightarrow> distinct (map f (remove1 a xs))"
proof -
  assume d: "distinct (map f xs)"
  then have "distinct xs" "inj_on f (set xs)"
    by (simp_all add: distinct_map)
  moreover have "set (remove1 a xs) \<subseteq> set xs"
    by (rule set_remove1_subset)
  ultimately show ?thesis
    by (auto simp: distinct_map intro: inj_on_subset)
qed

lemma foldl_executeAction:
  assumes "distinct (map id' (pendingActions s))"
    and "set as \<subseteq> set (pendingActions s)" and "distinct as"
    and "\<forall>a\<in>set as. \<not> Q a"
  shows "world (foldl (\<lambda>s i. executeAction h i s) s (map id' as)) = performInOrder h as (world s)
       \<and> chatHistory (foldl (\<lambda>s i. executeAction h i s) s (map id' as)) = chatHistory s
       \<and> filter Q (pendingActions (foldl (\<lambda>s i. executeAction h i s) s (map id' as)))
           = filter Q (pendingActions s)
       \<and> set (pendingActions (foldl (\<lambda>s i. executeAction h i s) s (map id' as)))
           \<subseteq> set (pendingActions s)"
  using assms
proof (induction as arbitrary: s)
  case Nil
  show ?case by (simp add: performInOrder_def)
next
  case (Cons a as)
  define s' where "s' = executeAction h (id' a) s"
  have a: "a \<in> set (pendingActions s)"
    using Cons.prems(2) by simp
  have dP: "distinct (pendingActions s)"
    using Cons.prems(1) by (simp add: distinct_map)
  note q = executeAction_queued [OF Cons.prems(1) a, of h, folded s'_def]
  have d': "distinct (map id' (pendingActions s'))"
    using q(3) Cons.prems(1) by (auto simp: distinct_map_remove1)
  have sub': "set as \<subseteq> set (pendingActions s')"
  proof
    fix x assume x: "x \<in> set as"
    with Cons.prems(2,3) have "x \<in> set (pendingActions s)" "x \<noteq> a" by auto
    then have "x \<in> set (remove1 a (pendingActions s))"
      using dP by simp
    with q(3) \<open>x \<in> set (pendingActions s)\<close> show "x \<in> set (pendingActions s')" by auto
  qed
  have "\<not> Q a"
    using Cons.prems(4) by simp
  then have "filter Q (remove1 a (pendingActions s)) = filter Q (pendingActions s)"
    by (simp add: filter_remove1 remove1_idem)
  with q(3) have f': "filter Q (pendingActions s') = filter Q (pendingActions s)"
    by auto
  have set': "set (pendingActions s') \<subseteq> set (pendingActions s)"
    using q(3) set_remove1_subset [of a "pendingActions s"] by auto
  from Cons.IH [OF d' sub'] Cons.prems(3,4)
  have ih: "world (foldl (\<lambda>s i. executeAction h i s) s' (map id' as)) = performInOrder h as (world s')"
    "chatHistory (foldl (\<lambda>s i. executeAction h i s) s' (map id' as)) = chatHistory s'"
    "filter Q (pendingActions (foldl (\<lambda>s i. executeAction h i s) s' (map id' as)))
       = filter Q (pendingActions s')"
    "set (pendingActions (foldl (\<lambda>s i. executeAction h i s) s' (map id' as)))
       \<subseteq> set (pendingActions s')"
    by auto
  have "foldl (\<lambda>s i. executeAction h i s) s (map id' (a # as))
      = foldl (\<lambda>s i. executeAction h i s) s' (map id' as)"
    by (simp add: s'_def)
  moreover have "performInOrder h (a # as) (world s) = performInOrder h as (world s')"
    by (simp add: performInOrder_def q(1))
  ultimately show ?case
    using ih q(2) f' set' by auto
qed

lemma example_locate:
  "locate [CHR ''a'', LF, CHR ''b'', LF, CHR ''c'', LF] ''b'' = Inr (2, 3)"
  using locate_exact [of "[CHR ''a'', LF, CHR ''b'', LF, CHR ''c'', LF]" "''b''" 2]
  by (simp add: splitsTerminator_def)

lemma example_modify:
  "perform exampleHost modifyAction exampleWorld
     = Inr (exampleWorld\<lparr>files := (files exampleWorld)
              (''/w/a.txt'' \<mapsto> [CHR ''a'', LF, CHR ''B'', LF, CHR ''c'', LF])\<rparr>)"
  by (simp add: perform_def modify_def exampleHost_def modifyAction_def exampleWorld_def
      exampleText_def example_locate replaceRange_def)

text \<open>
  C5, as the code has it. On a queue whose identifiers are distinct, approving all
  leaves the host as executing the actions that are not SHELL leaves it, in the order of
  the queue, each on the host its predecessor left (of a FETCH, the host has the request
  to open the URL). Nothing is sent to the terminal, the SHELL actions are all still
  queued in their order, nothing new is queued, and the history gains the notice with
  the number of SHELL actions when there is one.
\<close>

theorem approve_all_skips_shell:
  assumes "distinct (map id' (pendingActions s))"
  shows "world (handleApproveAll h s)
           = performInOrder h (filter (\<lambda>a. type a \<noteq> ''SHELL'') (pendingActions s)) (world s)
       \<and> terminal (world (handleApproveAll h s)) = terminal (world s)
       \<and> filter (\<lambda>a. type a = ''SHELL'') (pendingActions (handleApproveAll h s))
           = filter (\<lambda>a. type a = ''SHELL'') (pendingActions s)
       \<and> set (pendingActions (handleApproveAll h s)) \<subseteq> set (pendingActions s)
       \<and> chatHistory (handleApproveAll h s)
           = chatHistory s
               @ (if filter (\<lambda>a. type a = ''SHELL'') (pendingActions s) = [] then []
                  else [SkippedShell (length (filter (\<lambda>a. type a = ''SHELL'') (pendingActions s)))])"
proof -
  define safeActions where "safeActions = filter (\<lambda>a. type a \<noteq> ''SHELL'') (pendingActions s)"
  define s1 where "s1 = foldl (\<lambda>s i. executeAction h i s) s (map id' safeActions)"
  define skippedCount where "skippedCount = length (pendingActions s) - length safeActions"
  define s2 where
    "s2 = (if skippedCount > 0 then addToHistory (SkippedShell skippedCount) s1 else s1)"
  have count: "skippedCount = length (filter (\<lambda>a. type a = ''SHELL'') (pendingActions s))"
    using sum_length_filter_compl [of "\<lambda>a. type a \<noteq> ''SHELL''" "pendingActions s"]
    by (simp add: skippedCount_def safeActions_def)
  have "distinct (pendingActions s)"
    using assms by (simp add: distinct_map)
  then have "distinct safeActions" "set safeActions \<subseteq> set (pendingActions s)"
    "\<forall>a\<in>set safeActions. \<not> type a = ''SHELL''"
    by (simp_all add: safeActions_def)
  from foldl_executeAction [OF assms this(2,1,3), of h]
  have s1: "world s1 = performInOrder h safeActions (world s)"
    "chatHistory s1 = chatHistory s"
    "filter (\<lambda>a. type a = ''SHELL'') (pendingActions s1)
       = filter (\<lambda>a. type a = ''SHELL'') (pendingActions s)"
    "set (pendingActions s1) \<subseteq> set (pendingActions s)"
    by (simp_all add: s1_def)
  have s2: "world s2 = world s1" "pendingActions s2 = pendingActions s1"
    "chatHistory s2 = chatHistory s1 @ (if skippedCount > 0 then [SkippedShell skippedCount] else [])"
    by (simp_all add: s2_def)
  have "handleApproveAll h s
      = (if filter (\<lambda>a. id' a \<notin> set (map id' safeActions)) (pendingActions s2) = []
            \<or> list_all (\<lambda>a. type a = ''SHELL'')
                 (filter (\<lambda>a. id' a \<notin> set (map id' safeActions)) (pendingActions s2))
         then postMessage (ToggleApproveAll False) s2 else s2)"
    unfolding handleApproveAll_def Let_def s2_def s1_def skippedCount_def safeActions_def ..
  then have result: "world (handleApproveAll h s) = world s2"
    "pendingActions (handleApproveAll h s) = pendingActions s2"
    "chatHistory (handleApproveAll h s) = chatHistory s2"
    by simp_all
  have "terminal (performInOrder h safeActions (world s)) = terminal (world s)"
    by (rule performInOrder_keeps_terminal) (simp add: safeActions_def)
  with result s1 s2 count show ?thesis
    by (simp add: safeActions_def)
qed

text \<open>
  The queue of a MODIFY, a SHELL and a CREATE action: MODIFY completes, then CREATE;
  SHELL stays queued, and one skipped command is reported.
\<close>

theorem approve_all_skips_shell_witness:
  "distinct (map id' [modifyAction, shellAction, createAction])
   \<and> pendingActions (handleApproveAll exampleHost
         (exampleProvider [modifyAction, shellAction, createAction])) = [shellAction]
   \<and> files (world (handleApproveAll exampleHost
         (exampleProvider [modifyAction, shellAction, createAction]))) ''/w/a.txt''
       = Some [CHR ''a'', LF, CHR ''B'', LF, CHR ''c'', LF]
   \<and> files (world (handleApproveAll exampleHost
         (exampleProvider [modifyAction, shellAction, createAction]))) ''/w/n.txt''
       = Some ''hi''
   \<and> terminal (world (handleApproveAll exampleHost
         (exampleProvider [modifyAction, shellAction, createAction]))) = []
   \<and> chatHistory (handleApproveAll exampleHost
         (exampleProvider [modifyAction, shellAction, createAction])) = [SkippedShell 1]
   \<and> posted (handleApproveAll exampleHost
         (exampleProvider [modifyAction, shellAction, createAction]))
       = [ActionComplete ''m1'', ActionComplete ''c1'', ToggleApproveAll False,
          AddMessage (SkippedShell 1), ToggleApproveAll False]"
proof -
  let ?s = "exampleProvider [modifyAction, shellAction, createAction]"
  define w1 where "w1 = exampleWorld\<lparr>files := (files exampleWorld)
    (''/w/a.txt'' \<mapsto> [CHR ''a'', LF, CHR ''B'', LF, CHR ''c'', LF])\<rparr>"
  define w2 where "w2 = w1\<lparr>files := (files w1)(''/w/n.txt'' \<mapsto> ''hi'')\<rparr>"
  define t1 where "t1 = \<lparr>pendingActions = [shellAction, createAction], chatHistory = [],
    view = True, posted = [ActionComplete ''m1''], world = w1\<rparr>"
  define t2 where "t2 = \<lparr>pendingActions = [shellAction], chatHistory = [], view = True,
    posted = [ActionComplete ''m1'', ActionComplete ''c1'', ToggleApproveAll False],
    world = w2\<rparr>"
  have p: "pendingActions ?s = [modifyAction, shellAction, createAction]"
    and fs: "world ?s = exampleWorld" "view ?s" "posted ?s = []" "chatHistory ?s = []"
    by (simp_all add: exampleProvider_def)
  have types: "type modifyAction = ''MODIFY''" "type shellAction = ''SHELL''"
    "type createAction = ''CREATE''"
    and ids: "id' modifyAction = ''m1''" "id' shellAction = ''s1''" "id' createAction = ''c1''"
    by (simp_all add: modifyAction_def shellAction_def createAction_def)
  have d: "distinct (map id' (pendingActions ?s))"
    unfolding p by (simp add: ids)
  have m: "perform exampleHost modifyAction exampleWorld = Inr w1"
    unfolding w1_def by (rule example_modify)
  have "workspaceRoot w1 = Some ''/w''"
    by (simp add: w1_def exampleWorld_def)
  then have c: "perform exampleHost createAction w1 = Inr w2"
    by (simp add: perform_def createAction_def exampleHost_def w2_def)
  have e1: "executeAction exampleHost ''m1'' ?s = t1"
    by (simp add: executeAction_def p fs ids types m splice1_def postMessage_def Let_def
        t1_def exampleProvider_def)
  have e2: "executeAction exampleHost ''c1'' t1 = t2"
    by (simp add: executeAction_def t1_def t2_def ids types c splice1_def postMessage_def Let_def)
  have safe: "filter (\<lambda>a. type a \<noteq> ''SHELL'') (pendingActions ?s) = [modifyAction, createAction]"
    by (simp add: p types)
  have run: "foldl (\<lambda>s i. executeAction exampleHost i s) ?s (map id' [modifyAction, createAction])
      = t2"
    by (simp add: ids e1 e2)
  have t2: "pendingActions t2 = [shellAction]" "chatHistory t2 = []" "view t2"
    "posted t2 = [ActionComplete ''m1'', ActionComplete ''c1'', ToggleApproveAll False]"
    "world t2 = w2"
    by (simp_all add: t2_def)
  have files: "files w2 ''/w/a.txt'' = Some [CHR ''a'', LF, CHR ''B'', LF, CHR ''c'', LF]"
    "files w2 ''/w/n.txt'' = Some ''hi''"
    by (simp_all add: w2_def w1_def)
  have result: "handleApproveAll exampleHost ?s
      = postMessage (ToggleApproveAll False) (addToHistory (SkippedShell 1) t2)"
    unfolding handleApproveAll_def Let_def safe run
    by (simp add: p t2 ids types)
  from approve_all_skips_shell [OF d, of exampleHost]
  have "terminal (world (handleApproveAll exampleHost ?s)) = terminal (world ?s)"
    by blast
  moreover have "terminal (world ?s) = []"
    by (simp add: fs exampleWorld_def)
  ultimately have "terminal (world (handleApproveAll exampleHost ?s)) = []"
    by simp
  then show ?thesis
    by (simp add: result t2 files ids)
qed

text \<open>
  C5 as stated fails on a queue in which a SHELL action and a later CREATE action bear
  the same identifier: approving all executes the identifier of the CREATE action, which
  finds the SHELL action first. Its command is sent to the terminal, and the CREATE
  action stays queued with its file not written.
\<close>

theorem twin_identifier_runs_shell:
  "\<not> distinct (map id' [twinShell, twinCreate])
   \<and> terminal (world (handleApproveAll exampleHost (exampleProvider [twinShell, twinCreate])))
       = [Some ''ls'']
   \<and> pendingActions (handleApproveAll exampleHost (exampleProvider [twinShell, twinCreate]))
       = [twinCreate]
   \<and> files (world (handleApproveAll exampleHost (exampleProvider [twinShell, twinCreate])))
         ''/w/n.txt'' = None
   \<and> posted (handleApproveAll exampleHost (exampleProvider [twinShell, twinCreate]))
       = [ActionComplete ''x'', AddMessage (SkippedShell 1), ToggleApproveAll False]"
proof -
  let ?s = "exampleProvider [twinShell, twinCreate]"
  define w1 where "w1 = exampleWorld\<lparr>terminal := [Some ''ls'']\<rparr>"
  define t1 where "t1 = \<lparr>pendingActions = [twinCreate], chatHistory = [], view = True,
    posted = [ActionComplete ''x''], world = w1\<rparr>"
  have p: "pendingActions ?s = [twinShell, twinCreate]"
    and fs: "world ?s = exampleWorld" "view ?s" "posted ?s = []" "chatHistory ?s = []"
    by (simp_all add: exampleProvider_def)
  have types: "type twinShell = ''SHELL''" "type twinCreate = ''CREATE''"
    and ids: "id' twinShell = ''x''" "id' twinCreate = ''x''"
    by (simp_all add: twinShell_def twinCreate_def)
  have sh: "perform exampleHost twinShell exampleWorld = Inr w1"
    by (simp add: perform_def twinShell_def exampleWorld_def w1_def)
  have e1: "executeAction exampleHost ''x'' ?s = t1"
    by (simp add: executeAction_def p fs ids types sh splice1_def postMessage_def Let_def
        t1_def exampleProvider_def)
  have safe: "filter (\<lambda>a. type a \<noteq> ''SHELL'') (pendingActions ?s) = [twinCreate]"
    by (simp add: p types)
  have run: "foldl (\<lambda>s i. executeAction exampleHost i s) ?s (map id' [twinCreate]) = t1"
    by (simp add: ids e1)
  have t1: "pendingActions t1 = [twinCreate]" "chatHistory t1 = []" "view t1"
    "posted t1 = [ActionComplete ''x'']" "world t1 = w1"
    by (simp_all add: t1_def)
  have result: "handleApproveAll exampleHost ?s
      = postMessage (ToggleApproveAll False) (addToHistory (SkippedShell 1) t1)"
    unfolding handleApproveAll_def Let_def safe run
    by (simp add: p t1 ids types)
  have "files w1 ''/w/n.txt'' = None" "terminal w1 = [Some ''ls'']"
    by (simp_all add: w1_def exampleWorld_def)
  then show ?thesis
    by (simp add: result t1 ids)
qed

section \<open>Parsing\<close>

lemma stripPrefix_Some: "stripPrefix p s = Some r \<Longrightarrow> s = p @ r"
  by (auto simp: stripPrefix_def prefix_def split: if_splits)

lemma afterMarkerStart_holds_TOOL_CALL:
  assumes "afterMarkerStart s = Some r"
  shows "\<exists>pre post. s = pre @ ''TOOL_CALL'' @ post"
proof -
  from assms obtain s1 where s1: "stripPrefix ''{{'' s = Some s1"
    and r: "stripPrefix ''TOOL_CALL:'' (dropWhile isWhiteSpace s1) = Some r"
    by (auto simp: afterMarkerStart_def split: option.splits)
  have "s = ''{{'' @ s1"
    using stripPrefix_Some [OF s1] .
  also have "s1 = takeWhile isWhiteSpace s1 @ dropWhile isWhiteSpace s1"
    by simp
  also have "dropWhile isWhiteSpace s1 = ''TOOL_CALL:'' @ r"
    using stripPrefix_Some [OF r] .
  finally have "s = (''{{'' @ takeWhile isWhiteSpace s1) @ ''TOOL_CALL'' @ ('':'' @ r)"
    by simp
  then show ?thesis by blast
qed

lemma matchMarker_holds_TOOL_CALL:
  assumes "matchMarker s = Some x"
  shows "\<exists>pre post. s = pre @ ''TOOL_CALL'' @ post"
proof -
  from assms obtain r where "afterMarkerStart s = Some r"
    by (cases "afterMarkerStart s") (simp_all add: matchMarker_def)
  then show ?thesis by (rule afterMarkerStart_holds_TOOL_CALL)
qed

lemma findBlocks_holds_TOOL_CALL:
  "findBlocks s \<noteq> [] \<Longrightarrow> \<exists>pre post. s = pre @ ''TOOL_CALL'' @ post"
proof (induction s)
  case Nil
  then show ?case by simp
next
  case (Cons c cs)
  show ?case
  proof (cases "matchMarker (c # cs)")
    case None
    with Cons.prems have "findBlocks cs \<noteq> []" by simp
    from Cons.IH [OF this] obtain pre post where "cs = pre @ ''TOOL_CALL'' @ post"
      by blast
    then have "c # cs = (c # pre) @ ''TOOL_CALL'' @ post" by simp
    then show ?thesis by blast
  next
    case (Some x)
    then show ?thesis by (rule matchMarker_holds_TOOL_CALL)
  qed
qed

lemma parseLoop_appends:
  "\<exists>new. fst (parseLoop ids k blks (b, s)) = b @ new
     \<and> pendingActions (snd (parseLoop ids k blks (b, s))) = pendingActions s @ new
     \<and> chatHistory (snd (parseLoop ids k blks (b, s))) = chatHistory s @ map ActionCard new
     \<and> view (snd (parseLoop ids k blks (b, s))) = view s
     \<and> world (snd (parseLoop ids k blks (b, s))) = world s
     \<and> posted (snd (parseLoop ids k blks (b, s)))
         = posted s @ (if view s then map (\<lambda>a. AddMessage (ActionCard a)) new else [])"
proof (induction blks arbitrary: k b s)
  case Nil
  show ?case by (intro exI [of _ "[]"]) simp
next
  case (Cons blk blks)
  define a where "a = parseBlock (ids k) blk"
  show ?case
  proof (cases "type a = []")
    case True
    then have "parseLoop ids k (blk # blks) (b, s) = parseLoop ids (Suc k) blks (b, s)"
      by (simp add: a_def Let_def)
    with Cons.IH [of "Suc k" b s] show ?thesis by simp
  next
    case False
    define s' where "s' = addToHistory (ActionCard a) (s\<lparr>pendingActions := pendingActions s @ [a]\<rparr>)"
    from False have step: "parseLoop ids k (blk # blks) (b, s)
        = parseLoop ids (Suc k) blks (b @ [a], s')"
      by (simp add: a_def s'_def Let_def)
    from Cons.IH [of "Suc k" "b @ [a]" s'] obtain new where new:
      "fst (parseLoop ids (Suc k) blks (b @ [a], s')) = (b @ [a]) @ new"
      "pendingActions (snd (parseLoop ids (Suc k) blks (b @ [a], s'))) = pendingActions s' @ new"
      "chatHistory (snd (parseLoop ids (Suc k) blks (b @ [a], s')))
         = chatHistory s' @ map ActionCard new"
      "view (snd (parseLoop ids (Suc k) blks (b @ [a], s'))) = view s'"
      "world (snd (parseLoop ids (Suc k) blks (b @ [a], s'))) = world s'"
      "posted (snd (parseLoop ids (Suc k) blks (b @ [a], s')))
         = posted s' @ (if view s' then map (\<lambda>a. AddMessage (ActionCard a)) new else [])"
      by blast
    show ?thesis
      unfolding step using new by (intro exI [of _ "a # new"]) (simp add: s'_def)
  qed
qed

lemma findBlocks_no_marker:
  "(\<forall>k. matchMarker (drop k s) = None) \<Longrightarrow> findBlocks s = []"
proof (induction s)
  case Nil
  show ?case by simp
next
  case (Cons c cs)
  from Cons.prems [rule_format, of 0] have here: "matchMarker (c # cs) = None"
    by simp
  have "matchMarker (drop k cs) = None" for k
    using Cons.prems [rule_format, of "Suc k"] by simp
  with Cons.IH have "findBlocks cs = []" by blast
  with here show ?case by simp
qed

lemma no_TOOL_CALL_no_marker:
  assumes "\<not> (\<exists>pre post. s = pre @ ''TOOL_CALL'' @ post)"
  shows "matchMarker (drop k s) = None"
proof (rule ccontr)
  assume "matchMarker (drop k s) \<noteq> None"
  then obtain x where "matchMarker (drop k s) = Some x" by auto
  from matchMarker_holds_TOOL_CALL [OF this] obtain pre post
    where "drop k s = pre @ ''TOOL_CALL'' @ post" by blast
  then have "s = (take k s @ pre) @ ''TOOL_CALL'' @ post"
    by (metis append_take_drop_id append_assoc)
  with assms show False by blast
qed

text \<open>
  No block that was found is dropped: the types of the batch are the words of the
  markers, in order.
\<close>

lemma findBlocks_kinds: "(kind, body) \<in> set (findBlocks s) \<Longrightarrow> kind \<noteq> []"
proof (induction s rule: findBlocks.induct)
  case 1
  then show ?case by simp
next
  case (2 c cs)
  show ?case
  proof (cases "matchMarker (c # cs)")
    case None
    with 2 show ?thesis by simp
  next
    case (Some x)
    obtain kind' afterMarker where x: "x = (kind', afterMarker)" by (cases x)
    obtain body' rest where t: "takeBody afterMarker = (body', rest)"
      by (cases "takeBody afterMarker")
    have k: "kind' \<noteq> []"
      using Some x by (auto simp: matchMarker_def Let_def split: option.splits if_splits)
    from "2.prems" Some x t have "(kind, body) = (kind', body') \<or> (kind, body) \<in> set (findBlocks rest)"
      by simp
    then show ?thesis
    proof
      assume "(kind, body) = (kind', body')"
      with k show ?thesis by simp
    next
      assume "(kind, body) \<in> set (findBlocks rest)"
      with "2.IH"(2) [OF Some x [symmetric] t [symmetric]] show ?thesis
        by simp
    qed
  qed
qed

lemma parseBlock_type: "type (parseBlock i blk) = fst blk"
  by (simp add: parseBlock_def Let_def)

lemma parseLoop_queues_every_block:
  "\<forall>blk\<in>set blks. fst blk \<noteq> [] \<Longrightarrow>
     map type (fst (parseLoop ids k blks (b, s))) = map type b @ map fst blks"
proof (induction blks arbitrary: k b s)
  case Nil
  show ?case by simp
next
  case (Cons blk blks)
  then have "type (parseBlock (ids k) blk) \<noteq> []"
    by (simp add: parseBlock_type)
  with Cons show ?case
    by (simp add: Let_def parseBlock_type)
qed

lemma every_block_is_queued:
  "map type (fst (parseLoop ids 0 (findBlocks aiResponse) ([], s)))
     = map fst (findBlocks aiResponse)"
proof -
  have "\<forall>blk\<in>set (findBlocks aiResponse). fst blk \<noteq> []"
    using findBlocks_kinds by force
  from parseLoop_queues_every_block [OF this, of ids 0 "[]" s] show ?thesis
    by simp
qed

text \<open>
  C9. The reply \<open>createReply\<close> yields one action: a CREATE of \<^verbatim>\<open>a.txt\<close> with the
  content \<^verbatim>\<open>hello\<close>, whatever identifier is drawn for it, and that action is appended
  to the queue.
\<close>

theorem create_reply_yields_one_create_action:
  "fst (parseLoop ids 0 (findBlocks createReply) ([], s))
     = [\<lparr>id' = ids 0, type = ''CREATE'', path = Some ''a.txt'', content = Some ''hello'',
          before = None, command = None, url = None\<rparr>]
   \<and> pendingActions (parseAndConfirmActions ids createReply s)
     = pendingActions s
         @ [\<lparr>id' = ids 0, type = ''CREATE'', path = Some ''a.txt'', content = Some ''hello'',
              before = None, command = None, url = None\<rparr>]"
proof -
  define body where "body = [LF] @ ''FILE: a.txt'' @ [LF] @ ''CONTENT:'' @ [LF]
    @ fence @ [LF] @ ''hello'' @ [LF] @ fence @ [LF]"
  have blocks: "findBlocks createReply = [(''CREATE'', body)]"
    unfolding body_def
    by (simp add: createReply_def matchMarker_def afterMarkerStart_def stripPrefix_def
        isWhiteSpace_def isWordChar_def)
  have path: "getField body ''FILE'' = Some ''a.txt''"
    unfolding body_def
    by (simp add: getField_def matchesLabel_def toUpperCase_def skipEmphasis_def trim_def
        isWhiteSpace_def isLineTerminator_def)
  have content: "getCodeBlock body ''CONTENT'' = Some ''hello''"
    unfolding body_def
    by (simp add: getCodeBlock_def matchesLabel_def toUpperCase_def isWordChar_def)
  have action: "parseBlock i (''CREATE'', body)
      = \<lparr>id' = i, type = ''CREATE'', path = Some ''a.txt'', content = Some ''hello'',
         before = None, command = None, url = None\<rparr>" for i
    by (simp add: parseBlock_def path content)
  show ?thesis
    by (simp add: parseAndConfirmActions_def blocks action Let_def)
qed

text \<open>
  C8. When a reply leaves the queue as it was, the batch is empty, the history gains
  the reply and the notice that no tool call was recognised, and these two messages
  are all that is posted to the view. A reply no position of which starts a marker
  leaves the queue as it was, and so does a reply in which \<^verbatim>\<open>TOOL_CALL\<close> does not
  occur.
\<close>

theorem empty_batch_reports_no_tool_call:
  "(pendingActions (parseAndConfirmActions ids aiResponse s) = pendingActions s \<longrightarrow>
      fst (parseLoop ids 0 (findBlocks aiResponse) ([], addToHistory (AiText aiResponse) s)) = []
      \<and> chatHistory (parseAndConfirmActions ids aiResponse s)
          = chatHistory s @ [AiText aiResponse, NoToolCall]
      \<and> posted (parseAndConfirmActions ids aiResponse s)
          = posted s @ (if view s then [AddMessage (AiText aiResponse), AddMessage NoToolCall]
                        else []))
   \<and> ((\<forall>k. matchMarker (drop k aiResponse) = None) \<longrightarrow>
        pendingActions (parseAndConfirmActions ids aiResponse s) = pendingActions s)
   \<and> (\<not> (\<exists>pre post. aiResponse = pre @ ''TOOL_CALL'' @ post) \<longrightarrow>
        pendingActions (parseAndConfirmActions ids aiResponse s) = pendingActions s)"
proof -
  define s0 where "s0 = addToHistory (AiText aiResponse) s"
  define bs where "bs = parseLoop ids 0 (findBlocks aiResponse) ([], s0)"
  from parseLoop_appends [of ids 0 "findBlocks aiResponse" "[]" s0] obtain new where new:
    "fst bs = new" "pendingActions (snd bs) = pendingActions s0 @ new"
    "chatHistory (snd bs) = chatHistory s0 @ map ActionCard new"
    "view (snd bs) = view s0"
    "posted (snd bs) = posted s0 @ (if view s0 then map (\<lambda>a. AddMessage (ActionCard a)) new else [])"
    unfolding bs_def by auto
  have result: "parseAndConfirmActions ids aiResponse s
      = (if fst bs \<noteq> [] then postMessage (ToggleApproveAll True) (snd bs)
         else addToHistory NoToolCall (snd bs))"
    by (simp add: parseAndConfirmActions_def bs_def s0_def Let_def)
  have pending: "pendingActions (parseAndConfirmActions ids aiResponse s) = pendingActions s @ new"
    unfolding result using new(2) by (simp add: s0_def)
  have 1: "fst bs = [] \<and> chatHistory (parseAndConfirmActions ids aiResponse s)
          = chatHistory s @ [AiText aiResponse, NoToolCall]
      \<and> posted (parseAndConfirmActions ids aiResponse s)
          = posted s @ (if view s then [AddMessage (AiText aiResponse), AddMessage NoToolCall]
                        else [])"
    if "pendingActions (parseAndConfirmActions ids aiResponse s) = pendingActions s"
  proof -
    from that pending have "new = []" by simp
    then show ?thesis
      unfolding result using new by (simp add: s0_def)
  qed
  have 2: "pendingActions (parseAndConfirmActions ids aiResponse s) = pendingActions s"
    if "\<forall>k. matchMarker (drop k aiResponse) = None"
  proof -
    from that have "findBlocks aiResponse = []"
      by (rule findBlocks_no_marker)
    then have "fst bs = []" by (simp add: bs_def)
    with new(1) pending show ?thesis by simp
  qed
  have 3: "pendingActions (parseAndConfirmActions ids aiResponse s) = pendingActions s"
    if "\<not> (\<exists>pre post. aiResponse = pre @ ''TOOL_CALL'' @ post)"
    using that no_TOOL_CALL_no_marker 2 by blast
  from 1 2 3 show ?thesis
    unfolding bs_def s0_def by blast
qed

theorem empty_batch_reports_no_tool_call_witness:
  "(\<forall>k. matchMarker (drop k ''Done.'') = None)
   \<and> pendingActions (parseAndConfirmActions exampleIds ''Done.'' (exampleProvider [shellAction]))
     = [shellAction]
   \<and> chatHistory (parseAndConfirmActions exampleIds ''Done.'' (exampleProvider [shellAction]))
     = [AiText ''Done.'', NoToolCall]
   \<and> posted (parseAndConfirmActions exampleIds ''Done.'' (exampleProvider [shellAction]))
     = [AddMessage (AiText ''Done.''), AddMessage NoToolCall]"
proof -
  have no: "\<not> (\<exists>pre post. ''Done.'' = pre @ ''TOOL_CALL'' @ post)"
    unfolding indexOf_None_iff [symmetric] by simp
  then have markers: "\<forall>k. matchMarker (drop k ''Done.'') = None"
    using no_TOOL_CALL_no_marker by blast
  from empty_batch_reports_no_tool_call [of exampleIds "''Done.''" "exampleProvider [shellAction]"]
    no markers
  show ?thesis
    by (simp add: exampleProvider_def)
qed

lemma findBlocks_renameReply:
  "findBlocks renameReply = [(''RENAME'', [LF] @ ''FILE: a.txt'' @ [LF])]"
  by (simp add: renameReply_def matchMarker_def afterMarkerStart_def stripPrefix_def
      isWhiteSpace_def isWordChar_def)

text \<open>
  C3, evaluated on the code: a marker whose word is none of the five action types
  still yields an action. The guard \<^verbatim>\<open>if (action.type)\<close> holds for every captured word
  (lemma \<open>every_block_is_queued\<close>), so the action is queued and its card added to the
  history, and no error is reported.
\<close>

theorem unknown_kind_is_queued:
  "pendingActions (parseAndConfirmActions ids renameReply s)
     = pendingActions s
         @ [\<lparr>id' = ids 0, type = ''RENAME'', path = None, content = None,
              before = None, command = None, url = None\<rparr>]
   \<and> chatHistory (parseAndConfirmActions ids renameReply s)
     = chatHistory s
         @ [AiText renameReply,
            ActionCard \<lparr>id' = ids 0, type = ''RENAME'', path = None, content = None,
              before = None, command = None, url = None\<rparr>]"
  by (simp add: parseAndConfirmActions_def findBlocks_renameReply parseBlock_def Let_def)

end
